theory Spec2Isabelle
  imports Main "HOL-Library.Word"
begin

section \<open>Errors\<close>

text \<open>
  Go errors are values.  The constructors below are the errors the modelled functions
  create or distinguish: \<open>sql.ErrNoRows\<close>, the consumer's
  \<open>fmt.Errorf("invalid event ID: case 1")\<close>, the two failures of
  \<open>strconv.ParseInt\<close>, \<open>context.DeadlineExceeded\<close>, the invoker's
  \<open>exitCodeError\<close>, the nil pointer of type \<open>*exec.ExitError\<close> held in an
  error variable (not equal to nil, printed as \<open><nil>\<close>), an opaque error of a
  collaborator (database, file system, JSON codec) carrying its text, and
  \<open>fmt.Errorf("...: %w", err)\<close>.
\<close>

datatype error =
    ErrNoRows
  | ErrInvalidEventID
  | ErrSyntax
  | ErrRange
  | DeadlineExceeded
  | ExitCodeError int
  | NilExitError
  | Err string
  | Wrap string error

section \<open>Tasks (models/task.go)\<close>

datatype TaskStatus = Queued | Running | Succeeded | Failed

type_synonym TaskKind = int

definition JudgeSolutionTask :: TaskKind where
  "JudgeSolutionTask = 1"

type_synonym JSON = string

record Task =
  ID :: int
  Status :: TaskStatus
  Kind :: TaskKind
  Config :: JSON
  State :: JSON
  ExpireTime :: int

text \<open>
  \<open>json.Marshal\<close> and \<open>json.Unmarshal\<close> belong to the standard library; they
  are parameters \<open>marshal\<close> and \<open>unmarshal\<close> of the four accessors.  The
  setters have pointer receivers: they return the error and the task as it is afterwards.
\<close>

definition ScanConfig :: "(JSON \<Rightarrow> error + 'a) \<Rightarrow> Task \<Rightarrow> error + 'a" where
  "ScanConfig unmarshal task = unmarshal (Config task)"

definition SetConfig :: "('a \<Rightarrow> error + JSON) \<Rightarrow> 'a \<Rightarrow> Task \<Rightarrow> error option \<times> Task" where
  "SetConfig marshal config task =
     (case marshal config of
        Inl err \<Rightarrow> (Some err, task)
      | Inr raw \<Rightarrow> (None, task\<lparr>Config := raw\<rparr>))"

definition ScanState :: "(JSON \<Rightarrow> error + 'a) \<Rightarrow> Task \<Rightarrow> error + 'a" where
  "ScanState unmarshal task = unmarshal (Config task)"

definition SetState :: "('a \<Rightarrow> error + JSON) \<Rightarrow> 'a \<Rightarrow> Task \<Rightarrow> error option \<times> Task" where
  "SetState marshal state task =
     (case marshal state of
        Inl err \<Rightarrow> (Some err, task)
      | Inr raw \<Rightarrow> (None, task\<lparr>Config := raw\<rparr>))"

section \<open>The default comparator (invoker, compareFiles)\<close>

text \<open>
  \<open>strings.ReplaceAll(s, c, "")\<close> with a one-byte pattern \<open>c\<close> deletes every
  occurrence of that byte.
\<close>

definition ReplaceAll :: "string \<Rightarrow> char \<Rightarrow> string" where
  "ReplaceAll s c = filter (\<lambda>x. x \<noteq> c) s"

definition stripSpaces :: "string \<Rightarrow> string" where
  "stripSpaces s =
     ReplaceAll (ReplaceAll (ReplaceAll (ReplaceAll s (CHR 0x0A)) (CHR 0x0D)) (CHR 0x09)) CHR '' ''"

text \<open>
  \<open>compareFiles\<close> reads both files; the two results of \<open>ioutil.ReadFile\<close> are
  its arguments here.  \<open>quote\<close> is the \<open>%q\<close> verb of \<open>fmt.Sprintf\<close>.  The
  result is the triple (message, ok, err) of the source.
\<close>

definition compareFiles ::
  "(string \<Rightarrow> string) \<Rightarrow> error + string \<Rightarrow> error + string \<Rightarrow> string \<times> bool \<times> error option" where
  "compareFiles quote outputFile answerFile =
     (case outputFile of
        Inl err \<Rightarrow> ('''', False, Some err)
      | Inr output \<Rightarrow>
         (case answerFile of
            Inl err \<Rightarrow> ('''', False, Some err)
          | Inr answer \<Rightarrow>
             if stripSpaces output = stripSpaces answer then (''ok'', True, None)
             else (''expected '' @ quote (if length answer > 100 then take 100 answer else answer)
                   @ '', got '' @ quote (if length output > 100 then take 100 output else output),
                   False, None)))"

definition comparatorOk :: "(string \<Rightarrow> string) \<Rightarrow> string \<Rightarrow> string \<Rightarrow> bool" where
  "comparatorOk quote output answer = fst (snd (compareFiles quote (Inr output) (Inr answer)))"

definition whitespace :: "char set" where
  "whitespace = {CHR 0x0A, CHR 0x0D, CHR 0x09, CHR '' ''}"

section \<open>Verdicts and reports\<close>

text \<open>
  Modelled from the spec: \<open>models.Verdict\<close>, \<open>models.TestReport\<close> and
  \<open>models.SolutionReport\<close> are declared outside the available sources; the verdicts
  are the eleven of the specification's data model, the report fields the ones the
  invoker assigns.
\<close>

datatype Verdict =
    Accepted | Rejected | WrongAnswer | RuntimeError | TimeLimitExceeded
  | MemoryLimitExceeded | CompilationError | PartiallyAccepted
  | FailedVerdict | QueuedVerdict | RunningVerdict

record TestReport =
  Verdict :: Verdict
  CheckLog :: string
  Input :: string
  Output :: string

record SolutionReport =
  Verdict :: Verdict
  CompileLog :: string
  Tests :: "TestReport list"

section \<open>Decimal formatting\<close>

text \<open>The \<open>%d\<close> and \<open>%ld\<close> verbs: decimal digits, a minus sign for negatives.\<close>

definition digit :: "nat \<Rightarrow> char" where
  "digit d = ''0123456789'' ! d"

fun showNat :: "nat \<Rightarrow> string" where
  "showNat n = (if n < 10 then [digit n] else showNat (n div 10) @ [digit (n mod 10)])"

definition showInt :: "int \<Rightarrow> string" where
  "showInt i = (if i < 0 then CHR ''-'' # showNat (nat (- i)) else showNat (nat i))"

section \<open>Quoting\<close>

text \<open>
  The \<open>%q\<close> verb of \<open>fmt.Sprintf\<close> on a string is \<open>strconv.Quote\<close>: the
  string between double quotes, a double quote and a backslash preceded by a backslash, a
  printable ASCII byte as it is, the seven control characters with a letter escape written
  that way, and any other byte as a backslash, the letter x and the byte's two lower-case
  hexadecimal digits.  This is what Go prints for every ASCII string and for every byte that is not
  part of a valid UTF-8 sequence; a printable character encoded in several bytes, which
  Go copies, is outside this model.
\<close>

definition hexDigit :: "nat \<Rightarrow> char" where
  "hexDigit d = ''0123456789abcdef'' ! d"

definition quoteByte :: "char \<Rightarrow> string" where
  "quoteByte c =
     (let n = (of_char c :: nat) in
      if n = 0x22 then [CHR 0x5C, CHR 0x22]
      else if n = 0x5C then [CHR 0x5C, CHR 0x5C]
      else if 0x20 \<le> n \<and> n < 0x7F then [c]
      else if n = 0x07 then [CHR 0x5C, CHR ''a'']
      else if n = 0x08 then [CHR 0x5C, CHR ''b'']
      else if n = 0x0C then [CHR 0x5C, CHR ''f'']
      else if n = 0x0A then [CHR 0x5C, CHR ''n'']
      else if n = 0x0D then [CHR 0x5C, CHR ''r'']
      else if n = 0x09 then [CHR 0x5C, CHR ''t'']
      else if n = 0x0B then [CHR 0x5C, CHR ''v'']
      else [CHR 0x5C, CHR ''x'', hexDigit (n div 16), hexDigit (n mod 16)])"

definition quoteASCII :: "string \<Rightarrow> string" where
  "quoteASCII s = [CHR 0x22] @ concat (map quoteByte s) @ [CHR 0x22]"

section \<open>The judge worker, first variant (Invoker.onJudgeSolution)\<close>

text \<open>
  Everything the function obtains from its collaborators is a field of the environment:
  \<open>None\<close> is a nil error.  \<open>tests\<close> holds, per test set and test, what the run of
  that test observes.
\<close>

record TestEnv =
  inputText :: "error + string"
  execute :: "error option"
  outputText :: "error + string"
  outputFile :: "error + string"
  answerFile :: "error + string"

record JudgeEnv =
  scanConfig :: "error option"
  getSolution :: "error option"
  getProblem :: "error option"
  setReport :: "error option"
  updateSolution :: "error option"
  makeTempDir :: "error option"
  downloadProblem :: "error option"
  extractZip :: "error option"
  downloadSolution :: "error option"
  extractTarGz :: "error option"
  compile :: "error option"
  compileLog :: "error + string"
  readProblem :: "error + TestEnv list list"

definition orEmpty :: "error + string \<Rightarrow> string" where
  "orEmpty r = (case r of Inl err \<Rightarrow> '''' | Inr s \<Rightarrow> s)"

text \<open>\<open>errors.Is(err, context.DeadlineExceeded)\<close> looks through wrapped errors.\<close>

fun isDeadlineExceeded :: "error \<Rightarrow> bool" where
  "isDeadlineExceeded DeadlineExceeded = True"
| "isDeadlineExceeded (Wrap text err) = isDeadlineExceeded err"
| "isDeadlineExceeded err = False"

text \<open>The body of the inner loop: one test, one appended \<open>TestReport\<close>.\<close>

definition judgeTest :: "(string \<Rightarrow> string) \<Rightarrow> (error \<Rightarrow> string) \<Rightarrow> TestEnv \<Rightarrow> TestReport" where
  "judgeTest quote errorText t =
     (let inputText = orEmpty (inputText t) in
      case execute t of
        None \<Rightarrow>
          (let outputText = orEmpty (outputText t) in
           case compareFiles quote (outputFile t) (answerFile t) of
             (message, ok, Some err) \<Rightarrow>
               \<lparr>TestReport.Verdict = Rejected, CheckLog = ''unable to compare files: '' @ errorText err,
                Input = inputText, Output = outputText\<rparr>
           | (message, ok, None) \<Rightarrow>
               if ok then \<lparr>TestReport.Verdict = Accepted, CheckLog = message,
                           Input = inputText, Output = outputText\<rparr>
               else \<lparr>TestReport.Verdict = WrongAnswer, CheckLog = message,
                     Input = inputText, Output = outputText\<rparr>)
      | Some err \<Rightarrow>
          if isDeadlineExceeded err then
            \<lparr>TestReport.Verdict = TimeLimitExceeded, CheckLog = [], Input = inputText, Output = []\<rparr>
          else
            (case err of
               ExitCodeError code \<Rightarrow>
                 \<lparr>TestReport.Verdict = RuntimeError, CheckLog = ''Exit code: '' @ showInt code,
                  Input = inputText, Output = []\<rparr>
             | _ \<Rightarrow>
                 \<lparr>TestReport.Verdict = Rejected, CheckLog = ''Unknown error: %w'' @ errorText err,
                  Input = inputText, Output = []\<rparr>))"

text \<open>
  The closing loop of \<open>onJudgeSolution\<close>: the verdict starts as \<open>Accepted\<close> and the
  first test that is not accepted makes it \<open>PartiallyAccepted\<close> and ends the loop.
\<close>

fun overallVerdict :: "TestReport list \<Rightarrow> Verdict" where
  "overallVerdict [] = Accepted"
| "overallVerdict (test # tests) =
     (if TestReport.Verdict test \<noteq> Accepted then PartiallyAccepted else overallVerdict tests)"

text \<open>
  The deferred function stores the report: \<open>solution.SetReport\<close>, then
  \<open>Solutions.Update\<close>; a failure of either is logged and nothing is stored.
\<close>

definition persistReport :: "JudgeEnv \<Rightarrow> SolutionReport \<Rightarrow> SolutionReport option" where
  "persistReport env report =
     (if setReport env \<noteq> None then None
      else if updateSolution env \<noteq> None then None
      else Some report)"

record JudgeResult =
  returned :: "error option"
  persisted :: "SolutionReport option"

text \<open>
  \<open>compileLog\<close> is the result of \<open>readFile(tempCompileLogPath, 1024)\<close>.  In the
  branch for a failed compilation, \<open>compileLog, err := readFile(...)\<close> declares a new
  \<open>err\<close> inside the block, so the \<open>return err\<close> that ends the branch returns the
  error of reading the log, nil when the log was read, and not the error of \<open>Compile\<close>.
\<close>

definition onJudgeSolution ::
  "(string \<Rightarrow> string) \<Rightarrow> (error \<Rightarrow> string) \<Rightarrow> JudgeEnv \<Rightarrow> JudgeResult" where
  "onJudgeSolution quote errorText env =
     (case scanConfig env of
        Some err \<Rightarrow> \<lparr>returned = Some (Wrap ''unable to scan task config'' err), persisted = None\<rparr>
      | None \<Rightarrow>
     (case getSolution env of
        Some err \<Rightarrow> \<lparr>returned = Some (Wrap ''unable to fetch task solution'' err), persisted = None\<rparr>
      | None \<Rightarrow>
     (case getProblem env of
        Some err \<Rightarrow> \<lparr>returned = Some (Wrap ''unable to fetch task problem'' err), persisted = None\<rparr>
      | None \<Rightarrow>
     (let report = \<lparr>Verdict = Rejected, CompileLog = '''', Tests = []\<rparr>;
          fail = (\<lambda>err. \<lparr>returned = Some err, persisted = persistReport env report\<rparr>) in
      case makeTempDir env of Some err \<Rightarrow> fail err | None \<Rightarrow>
     (case downloadProblem env of Some err \<Rightarrow> fail err | None \<Rightarrow>
     (case extractZip env of Some err \<Rightarrow> fail err | None \<Rightarrow>
     (case downloadSolution env of Some err \<Rightarrow> fail err | None \<Rightarrow>
     (case extractTarGz env of Some err \<Rightarrow> fail err | None \<Rightarrow>
     (case compile env of
        Some compileErr \<Rightarrow>
          (let report = report\<lparr>CompileLog := orEmpty (compileLog env), Verdict := CompilationError\<rparr>
           in case compileLog env of
                Inl err \<Rightarrow> \<lparr>returned = Some err, persisted = persistReport env report\<rparr>
              | Inr text \<Rightarrow> \<lparr>returned = None, persisted = persistReport env report\<rparr>)
      | None \<Rightarrow>
          (let report = report\<lparr>CompileLog := orEmpty (compileLog env)\<rparr> in
           case readProblem env of
             Inl err \<Rightarrow> \<lparr>returned = Some (Wrap ''unable to parse package'' err),
                          persisted = persistReport env report\<rparr>
           | Inr testSets \<Rightarrow>
               (let report = report\<lparr>Tests := map (judgeTest quote errorText) (concat testSets)\<rparr>;
                    report = report\<lparr>Verdict := overallVerdict (Tests report)\<rparr>
                in \<lparr>returned = None, persisted = persistReport env report\<rparr>)))))))))))"

text \<open>
  The aggregation rule as the specification words it: all accepted gives accepted; some
  but not all accepted gives partially accepted; otherwise the most common verdict among
  the tests, the earlier one in the severity order winning a tie.
\<close>

definition severityOrder :: "Verdict list" where
  "severityOrder =
     [CompilationError, RuntimeError, TimeLimitExceeded, MemoryLimitExceeded, WrongAnswer, Rejected]"

fun mostCommon :: "Verdict list \<Rightarrow> Verdict list \<Rightarrow> Verdict" where
  "mostCommon vs [] = Rejected"
| "mostCommon vs [c] = c"
| "mostCommon vs (c # d # cs) =
     (let best = mostCommon vs (d # cs)
      in if count_list vs c \<ge> count_list vs best then c else best)"

definition specVerdict :: "TestReport list \<Rightarrow> Verdict" where
  "specVerdict tests =
     (let vs = map TestReport.Verdict tests in
      if \<forall>v \<in> set vs. v = Accepted then Accepted
      else if Accepted \<in> set vs then PartiallyAccepted
      else mostCommon vs severityOrder)"

section \<open>The judge worker, second variant (judgeSolutionTask)\<close>

text \<open>
  Modelled from the spec: this variant's report type is declared outside the available
  sources; it has the verdict, the compile report with its log, and the tests.
\<close>

record CompileReport =
  Log :: string

record SolutionReport2 =
  Verdict :: Verdict
  Compile :: CompileReport
  Tests :: "TestReport list"

text \<open>
  \<open>process.Wait\<close> returns an error that is not an \<open>*exec.ExitError\<close>, an
  \<open>*exec.ExitError\<close>, or the state with its exit code.  In the first case
  \<open>err, ok := err.(*exec.ExitError)\<close> declares a new \<open>err\<close>, the nil pointer, and
  that one is wrapped by \<open>fmt.Errorf\<close>.
\<close>

datatype WaitResult = WaitError error | WaitExitError | WaitState int

record CompileEnv =
  getConfig :: "error option"
  createContainer :: "error option"
  hasSource :: bool
  copyFileRec :: "error option"
  startContainer :: "error option"
  wait :: WaitResult
  stdout :: string

definition compileSolution ::
  "CompileEnv \<Rightarrow> SolutionReport2 \<Rightarrow> (bool \<times> error option) \<times> SolutionReport2" where
  "compileSolution env report =
     (case getConfig env of Some err \<Rightarrow> ((False, Some err), report) | None \<Rightarrow>
     (case createContainer env of
        Some err \<Rightarrow> ((False, Some (Wrap ''unable to create compiler'' err)), report)
      | None \<Rightarrow>
     (case (if hasSource env then copyFileRec env else None) of
        Some err \<Rightarrow> ((False, Some (Wrap ''unable to write solution'' err)), report)
      | None \<Rightarrow>
     (case startContainer env of
        Some err \<Rightarrow> ((False, Some (Wrap ''unable to start compiler'' err)), report)
      | None \<Rightarrow>
     (case wait env of
        WaitError waitErr \<Rightarrow> ((False, Some (Wrap ''unable to wait compiler'' NilExitError)), report)
      | WaitExitError \<Rightarrow> ((False, None), report\<lparr>Compile := \<lparr>Log = stdout env\<rparr>\<rparr>)
      | WaitState exitCode \<Rightarrow>
          (let report = report\<lparr>Compile := \<lparr>Log = stdout env\<rparr>\<rparr>
           in if exitCode \<noteq> 0 then ((False, None), report) else ((True, None), report)))))))"

record ImplEnv =
  prepareProblem :: "error option"
  prepareCompiler :: "error option"
  prepareSolution :: "error option"
  compiler :: CompileEnv
  setReport2 :: "error option"
  update :: "error option"

record ImplResult =
  returned2 :: "error option"
  persisted2 :: "SolutionReport2 option"

definition executeImpl :: "ImplEnv \<Rightarrow> ImplResult" where
  "executeImpl env =
     (case prepareProblem env of
        Some err \<Rightarrow> \<lparr>returned2 = Some (Wrap ''cannot prepare problem'' err), persisted2 = None\<rparr>
      | None \<Rightarrow>
     (case prepareCompiler env of
        Some err \<Rightarrow> \<lparr>returned2 = Some (Wrap ''cannot prepare compiler'' err), persisted2 = None\<rparr>
      | None \<Rightarrow>
     (case prepareSolution env of
        Some err \<Rightarrow> \<lparr>returned2 = Some (Wrap ''cannot prepare solution'' err), persisted2 = None\<rparr>
      | None \<Rightarrow>
     (let report = \<lparr>Verdict = Rejected, Compile = \<lparr>Log = ''''\<rparr>, Tests = []\<rparr> in
      case compileSolution (compiler env) report of
        ((ok, Some err), report) \<Rightarrow>
          \<lparr>returned2 = Some (Wrap ''cannot compile solution'' err), persisted2 = None\<rparr>
      | ((ok, None), report) \<Rightarrow>
          (let report = (if \<not> ok then report\<lparr>Verdict := CompilationError\<rparr> else report) in
           case setReport2 env of
             Some err \<Rightarrow> \<lparr>returned2 = Some err, persisted2 = None\<rparr>
           | None \<Rightarrow>
               (case update env of
                  Some err \<Rightarrow> \<lparr>returned2 = Some err, persisted2 = None\<rparr>
                | None \<Rightarrow> \<lparr>returned2 = None, persisted2 = Some report\<rparr>))))))"

section \<open>Sessions (SessionStore.GetByCookie)\<close>

text \<open>A Go function either returns or panics.\<close>

datatype 'a outcome = Returns 'a | Panics string

record Session =
  ID :: int
  AccountID :: int
  Secret :: string
  CreateTime :: int
  ExpireTime :: int

text \<open>
  \<open>strings.SplitN(s, sep, 2)\<close> with a one-byte separator: the string itself when the
  separator does not occur, otherwise the part before the first occurrence and the rest.
\<close>

definition SplitN2 :: "string \<Rightarrow> char \<Rightarrow> string list" where
  "SplitN2 s sep =
     (if sep \<in> set s then [takeWhile (\<lambda>c. c \<noteq> sep) s, tl (dropWhile (\<lambda>c. c \<noteq> sep) s)]
      else [s])"

text \<open>
  \<open>strconv.ParseInt(s, 10, 60)\<close>: an optional sign, then at least one decimal digit
  and nothing else; the magnitude is accumulated digit by digit and must stay below
  \<open>2 ^ 60\<close>, the value must lie in \<open>[- 2 ^ 59, 2 ^ 59)\<close>.
\<close>

definition isDigit :: "char \<Rightarrow> bool" where
  "isDigit c \<longleftrightarrow> (48::nat) \<le> of_char c \<and> (of_char c :: nat) \<le> 57"

fun parseDigits :: "string \<Rightarrow> nat \<Rightarrow> error + nat" where
  "parseDigits [] n = Inr n"
| "parseDigits (c # cs) n =
     (if \<not> isDigit c then Inl ErrSyntax
      else let n1 = n * 10 + ((of_char c :: nat) - 48)
           in if n1 > 2 ^ 60 - 1 then Inl ErrRange else parseDigits cs n1)"

definition ParseInt60 :: "string \<Rightarrow> error + int" where
  "ParseInt60 s =
     (if s = [] then Inl ErrSyntax
      else let neg = (hd s = CHR ''-'');
               s1 = (if hd s = CHR ''+'' \<or> hd s = CHR ''-'' then tl s else s)
           in if s1 = [] then Inl ErrSyntax
              else case parseDigits s1 0 of
                     Inl err \<Rightarrow> Inl err
                   | Inr un \<Rightarrow>
                       if \<not> neg \<and> un \<ge> 2 ^ 59 then Inl ErrRange
                       else if neg \<and> un > 2 ^ 59 then Inl ErrRange
                       else Inr (if neg then - int un else int un))"

definition GetByCookie :: "(int \<rightharpoonup> Session) \<Rightarrow> string \<Rightarrow> (error + Session) outcome" where
  "GetByCookie sessions cookie =
     (let parts = SplitN2 cookie (CHR ''_'') in
      case ParseInt60 (parts ! 0) of
        Inl err \<Rightarrow> Returns (Inl err)
      | Inr sid \<Rightarrow>
          (case sessions sid of
             None \<Rightarrow> Returns (Inl ErrNoRows)
           | Some session \<Rightarrow>
               if length parts \<le> 1 then Panics ''index out of range [1] with length 1''
               else if Secret session \<noteq> parts ! 1 then Returns (Inl ErrNoRows)
               else Returns (Inr session)))"

section \<open>The task queue (TaskStore.PopQueued)\<close>

text \<open>
  The index type of the models package, \<open>map[K]map[int64]struct{}\<close>: a map from a key
  to the set of the ids filed under it.  \<open>Create\<close> makes the inner map when the key is
  new; \<open>Delete\<close> removes the key when its inner map is left empty.  \<open>entries\<close> is
  the read \<open>m[key]\<close>, the empty set for a missing key.
\<close>

type_synonym 'k index = "'k \<rightharpoonup> int set"

definition makeIndex :: "'k index" where
  "makeIndex = Map.empty"

definition entries :: "'k index \<Rightarrow> 'k \<Rightarrow> int set" where
  "entries m key = (case m key of None \<Rightarrow> {} | Some ids \<Rightarrow> ids)"

definition Create :: "'k index \<Rightarrow> 'k \<Rightarrow> int \<Rightarrow> 'k index" where
  "Create m key i =
     (let m1 = (if m key = None then m(key \<mapsto> {}) else m)
      in m1(key \<mapsto> insert i (entries m1 key)))"

definition Delete :: "'k index \<Rightarrow> 'k \<Rightarrow> int \<Rightarrow> 'k index" where
  "Delete m key i =
     (let m1 = (case m key of None \<Rightarrow> m | Some ids \<Rightarrow> m(key \<mapsto> ids - {i}))
      in if entries m1 key = {} then m1(key := None) else m1)"

text \<open>
  The mirror of the task table with its three hooks \<open>reset\<close>, \<open>onCreateObject\<close> and
  \<open>onDeleteObject\<close>.
\<close>

record TaskStore =
  tasks :: "int \<rightharpoonup> Task"
  byStatus :: "TaskStatus index"

definition reset :: TaskStore where
  "reset = \<lparr>tasks = Map.empty, byStatus = makeIndex\<rparr>"

definition onCreateObject :: "Task \<Rightarrow> TaskStore \<Rightarrow> TaskStore" where
  "onCreateObject task s =
     s\<lparr>tasks := (tasks s)(Task.ID task \<mapsto> task),
       byStatus := Create (byStatus s) (Status task) (Task.ID task)\<rparr>"

definition onDeleteObject :: "int \<Rightarrow> TaskStore \<Rightarrow> TaskStore" where
  "onDeleteObject tid s =
     (case tasks s tid of
        Some task \<Rightarrow>
          s\<lparr>byStatus := Delete (byStatus s) (Status task) (Task.ID task),
            tasks := (tasks s)(Task.ID task := None)\<rparr>
      | None \<Rightarrow> s)"

text \<open>
  \<open>PopQueued\<close> is modelled inside its transaction (the branch for a missing
  transaction opens one and calls the function again).  The mirror is the one left by
  \<open>Sync\<close>.  \<open>visit\<close> is the order in which the \<open>range\<close> statement enumerates
  \<open>byStatus[Queued]\<close>: Go does not fix the iteration order of a map.  \<open>now\<close> is
  \<open>time.Now()\<close> in Unix seconds, \<open>updateTask\<close> the result of \<open>s.Update\<close>.
\<close>

record PopEnv =
  lockStore :: "error option"
  sync :: "error option"
  visit :: "int list"
  now :: int
  updateTask :: "Task \<Rightarrow> error option"

fun popLoop :: "TaskStore \<Rightarrow> (TaskKind \<Rightarrow> bool) \<Rightarrow> PopEnv \<Rightarrow> int list \<Rightarrow> error + Task" where
  "popLoop s flt env [] = Inl ErrNoRows"
| "popLoop s flt env (tid # ids) =
     (case tasks s tid of
        None \<Rightarrow> popLoop s flt env ids
      | Some task \<Rightarrow>
          if flt (Kind task) then
            (let task = task\<lparr>Status := Running, Task.ExpireTime := now env + 5\<rparr>
             in case updateTask env task of
                  Some err \<Rightarrow> Inl err
                | None \<Rightarrow> Inr task)
          else popLoop s flt env ids)"

definition PopQueued :: "TaskStore \<Rightarrow> (TaskKind \<Rightarrow> bool) \<Rightarrow> PopEnv \<Rightarrow> error + Task" where
  "PopQueued s flt env =
     (case lockStore env of Some err \<Rightarrow> Inl err | None \<Rightarrow>
     (case sync env of Some err \<Rightarrow> Inl err | None \<Rightarrow>
        popLoop s flt env (visit env)))"

text \<open>
  The mirror is consistent when every task is stored under its own id and filed under
  its own status, and \<open>visit\<close> enumerates the queued ids.
\<close>

definition consistent :: "TaskStore \<Rightarrow> bool" where
  "consistent s \<longleftrightarrow>
     (\<forall>tid task. tasks s tid = Some task \<longrightarrow>
        Task.ID task = tid \<and> tid \<in> entries (byStatus s) (Status task))
     \<and> (\<forall>st tid. tid \<in> entries (byStatus s) st \<longrightarrow>
          (\<exists>task. tasks s tid = Some task \<and> Status task = st))"

definition enumerates :: "PopEnv \<Rightarrow> TaskStore \<Rightarrow> bool" where
  "enumerates env s \<longleftrightarrow>
     distinct (visit env) \<and> set (visit env) = entries (byStatus s) Queued"

section \<open>The sandbox runner's monitor loop and report (safeexec/main.c)\<close>

text \<open>A failed \<open>ensure\<close> ends the program with its message.\<close>

datatype abort = Ensure string

text \<open>
  One \<open>Tick\<close> is what one pass of the \<open>do ... while (result == 0)\<close> loop observes:
  the result of \<open>waitpid\<close> with the status it stored, whether a negative result came
  with \<open>EINTR\<close>, whether \<open>clock_gettime\<close> fails, the milliseconds since the start,
  what \<open>readCgroupValue\<close> does on \<open>memory.current\<close> (the value read, or the
  \<open>ensure\<close> that fails in it) and whether \<open>kill\<close> fails with an error other than
  \<open>ESRCH\<close>.
\<close>

record Tick =
  result :: int
  status :: "32 word"
  eintr :: bool
  clockFails :: bool
  elapsed :: int
  sample :: "abort + int"
  killFails :: bool

record Context =
  timeLimit :: int
  memoryLimit :: int
  report :: string

record Monitor =
  peakMemory :: int
  lastElapsed :: int
  lastStatus :: "32 word"

fun monitorLoop :: "Context \<Rightarrow> int \<Rightarrow> Tick list \<Rightarrow> (abort + Monitor) option" where
  "monitorLoop ctx memory [] = None"
| "monitorLoop ctx memory (t # ts) =
     (if result t < 0 \<and> \<not> eintr t then Some (Inl (Ensure ''cannot wait for child process''))
      else if clockFails t then Some (Inl (Ensure ''cannot get current time''))
      else if result t = 0 \<and> elapsed t > timeLimit ctx \<and> killFails t
        then Some (Inl (Ensure ''cannot kill process''))
      else case sample t of
        Inl failed \<Rightarrow> Some (Inl failed)
      | Inr currentMemory \<Rightarrow>
          (let memory1 = (if currentMemory > memory then currentMemory else memory) in
           if currentMemory > memory \<and> memory1 > memoryLimit ctx \<and> killFails t
             then Some (Inl (Ensure ''cannot kill process''))
           else if result t = 0 then monitorLoop ctx memory1 ts
           else Some (Inr \<lparr>peakMemory = memory1, lastElapsed = elapsed t, lastStatus = status t\<rparr>)))"

text \<open>\<open>WIFEXITED(status) ? WEXITSTATUS(status) : -1\<close>\<close>

definition exitCodeOf :: "32 word \<Rightarrow> int" where
  "exitCodeOf st =
     (if and st 0x7f = 0 then uint (drop_bit 8 (and st 0xff00)) else - 1)"

record RunEnv =
  ticks :: "Tick list"
  finalSample :: "abort + int"
  openFails :: bool
  writeFails :: bool

text \<open>
  The runner from the start of the loop to its return: \<open>None\<close> when the loop never
  ends on the given ticks, otherwise the failed \<open>ensure\<close> or the content of the report
  file (\<open>None\<close>: no file is written).
\<close>

definition runMonitor :: "Context \<Rightarrow> RunEnv \<Rightarrow> (abort + string option) option" where
  "runMonitor ctx env =
     (case monitorLoop ctx 0 (ticks env) of
        None \<Rightarrow> None
      | Some (Inl a) \<Rightarrow> Some (Inl a)
      | Some (Inr m) \<Rightarrow>
          (case finalSample env of
             Inl failed \<Rightarrow> Some (Inl failed)
           | Inr currentMemory \<Rightarrow>
               (let exitCode = exitCodeOf (lastStatus m) in
                if report ctx \<noteq> [] then
                  (if openFails env then Some (Inl (Ensure ''cannot open report file''))
                   else if writeFails env then Some (Inl (Ensure ''cannot write report file''))
                   else Some (Inr (Some
                     (''time '' @ showInt (lastElapsed m) @ [CHR 0x0A]
                      @ ''memory '' @ showInt (peakMemory m) @ [CHR 0x0A]
                      @ ''exit_code '' @ showInt exitCode @ [CHR 0x0A]))))
                else Some (Inr None))))"

text \<open>The ticks the loop consumes: up to and including the first with a non-zero result.\<close>

fun consumed :: "Tick list \<Rightarrow> Tick list" where
  "consumed [] = []"
| "consumed (t # ts) = (if result t = 0 then t # consumed ts else [t])"

text \<open>
  A tick on which no \<open>ensure\<close> of the loop fails, and the value it reads from
  \<open>memory.current\<close>.
\<close>

definition passes :: "Tick \<Rightarrow> bool" where
  "passes t \<longleftrightarrow> (result t \<ge> 0 \<or> eintr t) \<and> \<not> clockFails t \<and> \<not> killFails t \<and> \<not> isl (sample t)"

definition sampled :: "Tick \<Rightarrow> int" where
  "sampled t = (case sample t of Inl failed \<Rightarrow> 0 | Inr v \<Rightarrow> v)"

section \<open>The event consumer (db/event_consumer.go)\<close>

text \<open>
  Modelled from the spec: \<open>EventRange\<close> and its method \<open>contains\<close> are declared
  outside the available sources.  A range is the half-open interval of event ids from
  \<open>Begin\<close> to \<open>End\<close>; \<open>End = 0\<close> stands for no upper bound, which is how
  \<open>NewEventConsumer\<close>, setting only \<open>Begin\<close>, obtains the initial range from
  \<open>beginID\<close> to infinity.

  Event ids are \<open>int64\<close> values: \<open>Begin++\<close> and \<open>EventID() + 1\<close>
  wrap around at \<open>2 ^ 63 - 1\<close>, and \<open>int64 x\<close> is the value the 64 bits hold
  after an operation whose exact result is \<open>x\<close>.
\<close>

definition int64 :: "int \<Rightarrow> int" where
  "int64 x = (x + 2 ^ 63) mod 2 ^ 64 - 2 ^ 63"

record EventRange =
  Begin :: int
  End :: int

definition contains :: "EventRange \<Rightarrow> int \<Rightarrow> bool" where
  "contains rng eid \<longleftrightarrow> Begin rng \<le> eid \<and> (End rng = 0 \<or> eid < End rng)"

definition eventGapSkipWindow :: nat where
  "eventGapSkipWindow = 5000"

record eventConsumer =
  ranges :: "EventRange list"

definition NewEventConsumer :: "int \<Rightarrow> eventConsumer" where
  "NewEventConsumer beginID = \<lparr>ranges = [\<lparr>Begin = beginID, End = 0\<rparr>]\<rparr>"


text \<open>
  \<open>removeEmptyRanges\<close>: the compaction loop copies every range with
  \<open>Begin \<noteq> End\<close> to position \<open>newLen\<close>; the slice is then cut to \<open>newLen\<close>
  and, when longer than the window, to its last \<open>eventGapSkipWindow\<close> elements.
\<close>

function compactLoop :: "EventRange list \<Rightarrow> nat \<Rightarrow> nat \<Rightarrow> EventRange list \<times> nat" where
  "compactLoop rs newLen i =
     (if i < length rs then
        (if Begin (rs ! i) \<noteq> End (rs ! i)
         then compactLoop (rs[newLen := rs ! i]) (Suc newLen) (Suc i)
         else compactLoop rs newLen (Suc i))
      else (rs, newLen))"
  by pat_completeness auto
termination
  by (relation "measure (\<lambda>(rs, newLen, i). length rs - i)") auto

declare compactLoop.simps [simp del]

definition removeEmptyRanges :: "EventRange list \<Rightarrow> EventRange list" where
  "removeEmptyRanges rs =
     (let (rs1, newLen) = compactLoop rs 0 0;
          rs2 = take newLen rs1
      in if length rs2 > eventGapSkipWindow
         then drop (length rs2 - eventGapSkipWindow) rs2
         else rs2)"

text \<open>
  The consumer uses of an event only its id, so an event is its id here.  The store is
  the one of the package's test (\<open>mockEventStore\<close>): \<open>LoadEvents\<close> collects, range by
  range, the stored events the range contains and sorts them by id.  The two error
  fields are the results of \<open>LoadEvents\<close> and of the reader's \<open>Err\<close>, both nil for
  the mock store.
\<close>

record EventStore =
  events :: "int list"
  loadError :: "error option"
  readError :: "error option"

definition LoadEvents :: "int list \<Rightarrow> EventRange list \<Rightarrow> int list" where
  "LoadEvents evs rs = sort (concat (map (\<lambda>rng. filter (\<lambda>event. contains rng event) evs) rs))"

text \<open>The inner loop that moves \<open>it\<close> to the first range containing the event.\<close>

function advance :: "EventRange list \<Rightarrow> nat \<Rightarrow> int \<Rightarrow> nat" where
  "advance rs it eid =
     (if it < length rs \<and> \<not> contains (rs ! it) eid then advance rs (Suc it) eid else it)"
  by pat_completeness auto
termination
  by (relation "measure (\<lambda>(rs, it, eid). length rs - it)") auto

declare advance.simps [simp del]

text \<open>The loop \<open>for i := len(c.ranges) - 3; i >= it; i--\<close> with its assignment.\<close>

function shiftRight :: "EventRange list \<Rightarrow> nat \<Rightarrow> int \<Rightarrow> EventRange list" where
  "shiftRight rs it i =
     (if int it \<le> i then shiftRight (rs[nat (i + 1) := rs ! nat i]) it (i - 1) else rs)"
  by pat_completeness auto
termination
  by (relation "measure (\<lambda>(rs, it, i). nat (i - int it + 1))") auto

declare shiftRight.simps [simp del]

definition splitRange :: "EventRange list \<Rightarrow> nat \<Rightarrow> int \<Rightarrow> EventRange list" where
  "splitRange rs it eid =
     (let rs1 = rs @ [rs ! (length rs - 1)];
          rs2 = shiftRight rs1 it (int (length rs1) - 3);
          rs3 = rs2[it := (rs2 ! it)\<lparr>End := eid\<rparr>]
      in rs3[it + 1 := (rs3 ! (it + 1))\<lparr>Begin := int64 (eid + 1)\<rparr>])"

text \<open>
  The loop over the loaded events.  The result is the error, the ranges as they are when
  the loop is left, and the events handed to \<open>fn\<close>, in order.
\<close>

fun consumeLoop ::
  "(int \<Rightarrow> error option) \<Rightarrow> EventRange list \<Rightarrow> nat \<Rightarrow> int list
     \<Rightarrow> error option \<times> EventRange list \<times> int list" where
  "consumeLoop fn rs it [] = (None, rs, [])"
| "consumeLoop fn rs it (eid # rest) =
     (let it = advance rs it eid in
      if it = length rs then (Some ErrInvalidEventID, rs, [])
      else
        case fn eid of
          Some err \<Rightarrow> (Some err, rs, [eid])
        | None \<Rightarrow>
            (let rs = (if eid = Begin (rs ! it)
                       then rs[it := (rs ! it)\<lparr>Begin := int64 (Begin (rs ! it) + 1)\<rparr>]
                       else splitRange rs it eid);
                 (err, rs, delivered) = consumeLoop fn rs it rest
             in (err, rs, eid # delivered)))"

record Consumed =
  failure :: "error option"
  consumer :: eventConsumer
  delivered :: "int list"

definition ConsumeEvents :: "EventStore \<Rightarrow> (int \<Rightarrow> error option) \<Rightarrow> eventConsumer \<Rightarrow> Consumed" where
  "ConsumeEvents store fn c =
     (case loadError store of
        Some e \<Rightarrow> \<lparr>failure = Some e, consumer = c, delivered = []\<rparr>
      | None \<Rightarrow>
          (case consumeLoop fn (ranges c) 0 (LoadEvents (events store) (ranges c)) of
             (Some e, rs, ds) \<Rightarrow> \<lparr>failure = Some e, consumer = c\<lparr>ranges := rs\<rparr>, delivered = ds\<rparr>
           | (None, rs, ds) \<Rightarrow>
               \<lparr>failure = readError store, consumer = c\<lparr>ranges := removeEmptyRanges rs\<rparr>,
                delivered = ds\<rparr>))"

text \<open>
  A sequence of \<open>ConsumeEvents\<close> calls on one consumer.  Each call comes with the
  state of the store at that time and its own callback.  The result is the consumer
  after the last call, every event handed to a callback, and every event a callback
  accepted (returned nil for), both in order.
\<close>

record History =
  final :: eventConsumer
  handed :: "int list"
  accepted :: "int list"

fun consumeAll :: "eventConsumer \<Rightarrow> (EventStore \<times> (int \<Rightarrow> error option)) list \<Rightarrow> History" where
  "consumeAll c [] = \<lparr>final = c, handed = [], accepted = []\<rparr>"
| "consumeAll c ((store, fn) # calls) =
     (let r = ConsumeEvents store fn c;
          h = consumeAll (consumer r) calls
      in \<lparr>final = final h,
          handed = delivered r @ handed h,
          accepted = filter (\<lambda>eid. fn eid = None) (delivered r) @ accepted h\<rparr>)"

text \<open>
  A store as the database keeps it: the event id is a primary key, so no id occurs twice,
  and the ids are below the largest \<open>int64\<close>.
\<close>

definition validIds :: "EventStore \<Rightarrow> bool" where
  "validIds store \<longleftrightarrow>
     distinct (events store) \<and> (\<forall>eid \<in> set (events store). eid < 2 ^ 63 - 1)"

text \<open>
  \<open>removeEmptyRanges\<close> discards ranges that are not empty only when more than
  \<open>eventGapSkipWindow\<close> of them are left at the end of the loop.  \<open>gapsLeft\<close> counts
  them for one call; \<open>withinWindow\<close> says that no call of a sequence exceeds the
  window.
\<close>

definition gapsLeft :: "EventStore \<Rightarrow> (int \<Rightarrow> error option) \<Rightarrow> eventConsumer \<Rightarrow> nat" where
  "gapsLeft store fn c =
     (case consumeLoop fn (ranges c) 0 (LoadEvents (events store) (ranges c)) of
        (e, rs, ds) \<Rightarrow> length (filter (\<lambda>rng. Begin rng \<noteq> End rng) rs))"


text \<open>The ids a list of ranges still waits for.\<close>

definition pending :: "EventRange list \<Rightarrow> int set" where
  "pending rs = {eid. \<exists>rng \<in> set rs. contains rng eid}"

text \<open>
  The shape of the ranges of a consumer created with a positive \<open>beginID\<close>: positive
  bounds, each range but the last bounded and ending before the next begins, the last
  one unbounded.
\<close>

definition ordered :: "EventRange list \<Rightarrow> bool" where
  "ordered rs \<longleftrightarrow>
     sorted_wrt (\<lambda>a b. Begin a \<le> End a \<and> End a < Begin b) rs \<and> (\<forall>rng \<in> set rs. 1 \<le> Begin rng)"

definition wellFormed :: "EventRange list \<Rightarrow> bool" where
  "wellFormed rs \<longleftrightarrow> rs \<noteq> [] \<and> End (last rs) = 0 \<and> ordered rs"

definition mockStore :: "int list \<Rightarrow> EventStore" where
  "mockStore evs = \<lparr>events = evs, loadError = None, readError = None\<rparr>"

definition succeed :: "int \<Rightarrow> error option" where
  "succeed eid = None"


section \<open>Concrete inputs\<close>

text \<open>The inputs at which the theorems below are instantiated.\<close>

definition exampleTask :: Task where
  "exampleTask = \<lparr>Task.ID = 7, Status = Running, Kind = JudgeSolutionTask,
                   Config = ''[3]'', State = ''{}'', Task.ExpireTime = 0\<rparr>"

definition unaryMarshal :: "nat \<Rightarrow> error + JSON" where
  "unaryMarshal n = Inr (replicate n (CHR ''1''))"

definition unaryUnmarshal :: "JSON \<Rightarrow> error + nat" where
  "unaryUnmarshal raw = (if set raw \<subseteq> {CHR ''1''} then Inr (length raw) else Inl (Err ''invalid''))"

definition plainText :: "error \<Rightarrow> string" where
  "plainText err = ''error''"

definition okTest :: TestEnv where
  "okTest = \<lparr>inputText = Inr ''1 2'', execute = None, outputText = Inr ''3'',
             outputFile = Inr ''3'', answerFile = Inr (''3'' @ [CHR 0x0A])\<rparr>"

definition wrongTest :: TestEnv where
  "wrongTest = \<lparr>inputText = Inr ''1 2'', execute = None, outputText = Inr ''4'',
                outputFile = Inr ''4'', answerFile = Inr (''3'' @ [CHR 0x0A])\<rparr>"

definition judgeEnv :: "error option \<Rightarrow> error + string \<Rightarrow> TestEnv list \<Rightarrow> JudgeEnv" where
  "judgeEnv compileResult logResult tests =
     \<lparr>scanConfig = None, getSolution = None, getProblem = None, setReport = None,
      updateSolution = None, makeTempDir = None, downloadProblem = None, extractZip = None,
      downloadSolution = None, extractTarGz = None, compile = compileResult,
      compileLog = logResult, readProblem = Inr [tests]\<rparr>"

definition exampleSession :: Session where
  "exampleSession = \<lparr>ID = 5, AccountID = 1, Secret = ''abc'', CreateTime = 0, ExpireTime = 0\<rparr>"

definition anyKind :: "TaskKind \<Rightarrow> bool" where
  "anyKind kind = True"

definition expiredTask :: Task where
  "expiredTask = \<lparr>Task.ID = 1, Status = Running, Kind = JudgeSolutionTask,
                   Config = ''{}'', State = [], Task.ExpireTime = 10\<rparr>"

definition expiredStore :: TaskStore where
  "expiredStore = onCreateObject expiredTask reset"

definition expiredEnv :: PopEnv where
  "expiredEnv = \<lparr>lockStore = None, sync = None, visit = [], now = 100,
                  updateTask = (\<lambda>task. None)\<rparr>"

definition queuedTask :: "int \<Rightarrow> Task" where
  "queuedTask tid = \<lparr>Task.ID = tid, Status = Queued, Kind = JudgeSolutionTask,
                      Config = ''{}'', State = [], Task.ExpireTime = 0\<rparr>"

definition twoQueuedStore :: TaskStore where
  "twoQueuedStore = onCreateObject (queuedTask 2) (onCreateObject (queuedTask 1) reset)"

definition twoQueuedEnv :: PopEnv where
  "twoQueuedEnv = \<lparr>lockStore = None, sync = None, visit = [2, 1], now = 100,
                    updateTask = (\<lambda>task. None)\<rparr>"

definition exampleContext :: Context where
  "exampleContext = \<lparr>timeLimit = 1000, memoryLimit = 1000000, report = ''report.txt''\<rparr>"

definition exampleRun :: RunEnv where
  "exampleRun =
     \<lparr>ticks = [\<lparr>result = 0, status = 0, eintr = False, clockFails = False, elapsed = 0,
                sample = Inr 4096, killFails = False\<rparr>,
               \<lparr>result = 7, status = 0x100, eintr = False, clockFails = False, elapsed = 5,
                sample = Inr 2048, killFails = False\<rparr>],
      finalSample = Inr 2048, openFails = False, writeFails = False\<rparr>"

definition failOn :: "int \<Rightarrow> int \<Rightarrow> error option" where
  "failOn k eid = (if eid = k then Some (Err ''consuming error'') else None)"



definition firstCalls :: "(EventStore \<times> (int \<Rightarrow> error option)) list" where
  "firstCalls = [(mockStore [1, 2, 3], succeed)]"

section \<open>Task state accessors\<close>

text \<open>
  C9.  \<open>SetState\<close> marshals its argument and stores the bytes in \<open>Config\<close>; on a
  marshalling error the task is unchanged.  The \<open>State\<close> field is the same afterwards,
  and its value has no influence on \<open>SetState\<close> or \<open>ScanState\<close>.  \<open>ScanState\<close>
  unmarshals \<open>Config\<close>.  Hence \<open>SetState\<close> followed by \<open>ScanState\<close> gives the value
  back whenever the codec itself round-trips, and \<open>ScanConfig\<close> then sees the state
  bytes: the original config is overwritten.
\<close>

theorem SetState_ScanState_use_Config:
  "(\<forall>raw. marshal st = Inr raw \<longrightarrow>
       SetState marshal st task = (None, task\<lparr>Config := raw\<rparr>)
       \<and> Config (snd (SetState marshal st task)) = raw
       \<and> ScanConfig unmarshal (snd (SetState marshal st task)) = unmarshal raw
       \<and> (unmarshal raw = Inr st \<longrightarrow>
            ScanState unmarshal (snd (SetState marshal st task)) = Inr st))
   \<and> (\<forall>err. marshal st = Inl err \<longrightarrow> SetState marshal st task = (Some err, task))
   \<and> State (snd (SetState marshal st task)) = State task
   \<and> ScanState unmarshal task = unmarshal (Config task)
   \<and> ScanState unmarshal (task\<lparr>State := s\<rparr>) = ScanState unmarshal task
   \<and> SetState marshal st (task\<lparr>State := s\<rparr>) =
       (fst (SetState marshal st task), (snd (SetState marshal st task))\<lparr>State := s\<rparr>)"
  by (auto simp: SetState_def ScanState_def ScanConfig_def split: sum.splits)

theorem SetState_ScanState_use_Config_witness:
  "unaryMarshal 3 = Inr ''111'' \<and> unaryUnmarshal ''111'' = Inr 3
   \<and> SetState unaryMarshal 3 exampleTask = (None, exampleTask\<lparr>Config := ''111''\<rparr>)
   \<and> ScanState unaryUnmarshal (snd (SetState unaryMarshal 3 exampleTask)) = Inr 3
   \<and> State (snd (SetState unaryMarshal 3 exampleTask)) = ''{}''"
proof -
  have m: "unaryMarshal 3 = Inr ''111''"
    by (simp add: unaryMarshal_def numeral_3_eq_3)
  have u: "unaryUnmarshal ''111'' = Inr 3"
    by (simp add: unaryUnmarshal_def)
  have s: "State exampleTask = ''{}''"
    by (simp add: exampleTask_def)
  from SetState_ScanState_use_Config
    [of unaryMarshal 3 exampleTask unaryUnmarshal "[]"] m u s
  show ?thesis by metis
qed

section \<open>The default comparator\<close>

lemma stripSpaces_filter: "stripSpaces s = filter (\<lambda>c. c \<notin> whitespace) s"
  by (induction s) (auto simp: stripSpaces_def ReplaceAll_def whitespace_def)

lemma comparatorOk_iff: "comparatorOk quote x y \<longleftrightarrow> stripSpaces x = stripSpaces y"
  by (simp add: comparatorOk_def compareFiles_def)

text \<open>
  C6.  The verdict of the default comparator is an equivalence relation on byte strings:
  reflexive, symmetric and transitive.  A block \<open>ws\<close> of whitespace bytes (newline,
  carriage return, tab, space) inserted anywhere into the output or into the answer, or
  removed from there, leaves the verdict unchanged.
\<close>

theorem comparator_equivalence:
  "comparatorOk quote a a
   \<and> (comparatorOk quote a b = comparatorOk quote b a)
   \<and> (comparatorOk quote a b \<and> comparatorOk quote b c \<longrightarrow> comparatorOk quote a c)
   \<and> (set ws \<subseteq> whitespace \<longrightarrow>
        comparatorOk quote (xs @ ws @ ys) b = comparatorOk quote (xs @ ys) b
        \<and> comparatorOk quote a (xs @ ws @ ys) = comparatorOk quote a (xs @ ys))"
proof -
  have "set ws \<subseteq> whitespace \<Longrightarrow> stripSpaces (xs @ ws @ ys) = stripSpaces (xs @ ys)"
    by (auto simp: stripSpaces_filter filter_empty_conv)
  then show ?thesis
    by (auto simp: comparatorOk_iff)
qed

theorem comparator_equivalence_witness:
  "comparatorOk quoteASCII ''3 4'' ''34'' \<and> comparatorOk quoteASCII ''34'' (''3'' @ [CHR 0x0A] @ ''4'')
   \<and> comparatorOk quoteASCII ''3 4'' (''3'' @ [CHR 0x0A] @ ''4'')
   \<and> set [CHR 0x09, CHR '' ''] \<subseteq> whitespace
   \<and> comparatorOk quoteASCII (''3'' @ [CHR 0x09, CHR '' ''] @ ''4'') ''34''
       = comparatorOk quoteASCII (''3'' @ ''4'') ''34''"
proof -
  have 1: "comparatorOk quoteASCII ''3 4'' ''34''"
    by (simp add: comparatorOk_iff stripSpaces_def ReplaceAll_def)
  have 2: "comparatorOk quoteASCII ''34'' (''3'' @ [CHR 0x0A] @ ''4'')"
    by (simp add: comparatorOk_iff stripSpaces_def ReplaceAll_def)
  have 3: "set [CHR 0x09, CHR '' ''] \<subseteq> whitespace"
    by (simp add: whitespace_def)
  from comparator_equivalence
    [of quoteASCII "''3 4''" "''34''" "''3'' @ [CHR 0x0A] @ ''4''" "[CHR 0x09, CHR '' '']" "''3''" "''4''"]
    1 2 3
  show ?thesis by blast
qed

section \<open>The overall verdict\<close>

lemma overallVerdict_eq:
  "overallVerdict tests =
     (if \<forall>t \<in> set tests. TestReport.Verdict t = Accepted then Accepted
      else PartiallyAccepted)"
  by (induction tests) auto

text \<open>
  C2, as the code has it.  When every step up to and including the compilation succeeds,
  the package is read and the report can be stored, \<open>onJudgeSolution\<close> returns nil and
  stores a report with one entry per test of the package, in order, whose verdict is
  \<open>Accepted\<close> if every test is accepted (also when there is no test) and
  \<open>PartiallyAccepted\<close> as soon as one test is not accepted, whether or not any test is
  accepted.  No verdict is chosen by frequency or severity.
\<close>

theorem onJudgeSolution_overall_verdict:
  assumes "scanConfig env = None" and "getSolution env = None" and "getProblem env = None"
    and "makeTempDir env = None" and "downloadProblem env = None" and "extractZip env = None"
    and "downloadSolution env = None" and "extractTarGz env = None"
    and "compile env = None" and "readProblem env = Inr testSets"
    and "setReport env = None" and "updateSolution env = None"
  shows "onJudgeSolution quote errorText env =
     \<lparr>returned = None,
      persisted = Some
        \<lparr>SolutionReport.Verdict =
           (if \<forall>t \<in> set (concat testSets).
                 TestReport.Verdict (judgeTest quote errorText t) = Accepted
            then Accepted else PartiallyAccepted),
         CompileLog = orEmpty (compileLog env),
         SolutionReport.Tests = map (judgeTest quote errorText) (concat testSets)\<rparr>\<rparr>"
  using assms
  by (simp add: onJudgeSolution_def persistReport_def overallVerdict_eq)

text \<open>An accepted and a wrong test: the run ends without error, the verdict is partial.\<close>

theorem onJudgeSolution_overall_verdict_witness:
  "compile (judgeEnv None (Inr ''log'') [okTest, wrongTest]) = None
   \<and> readProblem (judgeEnv None (Inr ''log'') [okTest, wrongTest]) = Inr [[okTest, wrongTest]]
   \<and> map TestReport.Verdict (map (judgeTest quoteASCII plainText) [okTest, wrongTest])
        = [Accepted, WrongAnswer]
   \<and> returned (onJudgeSolution quoteASCII plainText (judgeEnv None (Inr ''log'') [okTest, wrongTest]))
        = None
   \<and> map_option SolutionReport.Verdict
        (persisted (onJudgeSolution quoteASCII plainText (judgeEnv None (Inr ''log'') [okTest, wrongTest])))
        = Some PartiallyAccepted"
proof -
  let ?env = "judgeEnv None (Inr ''log'') [okTest, wrongTest]"
  have e: "scanConfig ?env = None" "getSolution ?env = None" "getProblem ?env = None"
    "makeTempDir ?env = None" "downloadProblem ?env = None" "extractZip ?env = None"
    "downloadSolution ?env = None" "extractTarGz ?env = None"
    "compile ?env = None" "readProblem ?env = Inr [[okTest, wrongTest]]"
    "setReport ?env = None" "updateSolution ?env = None"
    by (simp_all add: judgeEnv_def)
  have v: "map TestReport.Verdict (map (judgeTest quoteASCII plainText) [okTest, wrongTest])
        = [Accepted, WrongAnswer]"
    by (simp add: okTest_def wrongTest_def judgeTest_def compareFiles_def stripSpaces_def
        ReplaceAll_def orEmpty_def)
  then have w: "TestReport.Verdict (judgeTest quoteASCII plainText wrongTest) = WrongAnswer"
    by simp
  have n: "\<not> (\<forall>t \<in> set (concat [[okTest, wrongTest]]).
              TestReport.Verdict (judgeTest quoteASCII plainText t) = Accepted)"
    using w by simp
  from onJudgeSolution_overall_verdict [of ?env "[[okTest, wrongTest]]" quoteASCII plainText, OF e] n
  have "returned (onJudgeSolution quoteASCII plainText ?env) = None"
    and "map_option SolutionReport.Verdict (persisted (onJudgeSolution quoteASCII plainText ?env))
          = Some PartiallyAccepted"
    by simp_all
  with e(9,10) v show ?thesis by (intro conjI)
qed

text \<open>
  A single test with a wrong answer, after a successful compilation: no test is accepted,
  the most common verdict among the tests is \<open>WrongAnswer\<close>, and the stored verdict is
  \<open>PartiallyAccepted\<close>.  The check log quotes the answer, the digit 3 and a line
  feed, with the line feed written as a backslash and the letter n.
\<close>

theorem onJudgeSolution_overall_verdict_counterexample:
  "onJudgeSolution quoteASCII plainText (judgeEnv None (Inr ''log'') [wrongTest]) =
     \<lparr>returned = None,
      persisted = Some
        \<lparr>SolutionReport.Verdict = PartiallyAccepted, CompileLog = ''log'',
         SolutionReport.Tests =
           [\<lparr>TestReport.Verdict = WrongAnswer,
             CheckLog = ''expected '' @ [CHR 0x22] @ ''3'' @ [CHR 0x5C] @ ''n'' @ [CHR 0x22]
                        @ '', got '' @ [CHR 0x22] @ ''4'' @ [CHR 0x22],
             Input = ''1 2'', Output = ''4''\<rparr>]\<rparr>\<rparr>
   \<and> specVerdict
        [\<lparr>TestReport.Verdict = WrongAnswer,
          CheckLog = ''expected '' @ [CHR 0x22] @ ''3'' @ [CHR 0x5C] @ ''n'' @ [CHR 0x22]
                     @ '', got '' @ [CHR 0x22] @ ''4'' @ [CHR 0x22],
          Input = ''1 2'', Output = ''4''\<rparr>] = WrongAnswer
   \<and> PartiallyAccepted \<noteq> WrongAnswer"
  by (simp add: onJudgeSolution_def judgeEnv_def wrongTest_def judgeTest_def compareFiles_def
      stripSpaces_def ReplaceAll_def orEmpty_def persistReport_def specVerdict_def
      severityOrder_def quoteASCII_def quoteByte_def)

section \<open>Compilation errors\<close>

text \<open>
  The second variant of the worker: when the compiler's process ends with a non-zero exit
  code and storing the report succeeds, \<open>executeImpl\<close> returns no error and the stored
  report has the verdict \<open>CompilationError\<close>, the compiler's output and no test.
\<close>

lemma executeImpl_compilation_error:
  assumes "prepareProblem env = None" and "prepareCompiler env = None"
    and "prepareSolution env = None"
    and "getConfig (compiler env) = None" and "createContainer (compiler env) = None"
    and "hasSource (compiler env) \<longrightarrow> copyFileRec (compiler env) = None"
    and "startContainer (compiler env) = None"
    and "wait (compiler env) = WaitState exitCode" and "exitCode \<noteq> 0"
    and "setReport2 env = None" and "update env = None"
  shows "executeImpl env =
     \<lparr>returned2 = None,
      persisted2 = Some \<lparr>Verdict = CompilationError, Compile = \<lparr>Log = stdout (compiler env)\<rparr>,
                         Tests = []\<rparr>\<rparr>"
  using assms by (simp add: executeImpl_def compileSolution_def)

text \<open>
  The first variant: whenever the steps before the compilation succeed and \<open>Compile\<close>
  fails, the verdict is \<open>CompilationError\<close>, no test is run, and the function returns
  what reading the compile log returned: nil when the log was read, the error of
  \<open>readFile\<close> otherwise.
\<close>

lemma onJudgeSolution_compile_failure:
  assumes "scanConfig env = None" and "getSolution env = None" and "getProblem env = None"
    and "makeTempDir env = None" and "downloadProblem env = None" and "extractZip env = None"
    and "downloadSolution env = None" and "extractTarGz env = None"
    and "compile env = Some compileErr"
  shows "onJudgeSolution quote errorText env =
     \<lparr>returned = (case compileLog env of Inl err \<Rightarrow> Some err | Inr text \<Rightarrow> None),
      persisted = persistReport env
        \<lparr>SolutionReport.Verdict = CompilationError, CompileLog = orEmpty (compileLog env),
         SolutionReport.Tests = []\<rparr>\<rparr>"
  using assms by (simp add: onJudgeSolution_def split: sum.splits)

text \<open>
  C7.  In \<open>Invoker.onJudgeSolution\<close>, a compilation that ends with exit code 1 and
  leaves a compile log that cannot be read (\<open>readFile\<close> returns \<open>EOF\<close> for an empty
  file) stores a report with the verdict \<open>CompilationError\<close> and without tests, and
  the function returns the error of \<open>readFile\<close>, not success.
\<close>

theorem onJudgeSolution_compile_log_error_returned:
  "onJudgeSolution quoteASCII plainText
       (judgeEnv (Some (ExitCodeError 1)) (Inl (Err ''EOF'')) [okTest]) =
     \<lparr>returned = Some (Err ''EOF''),
      persisted = Some \<lparr>SolutionReport.Verdict = CompilationError, CompileLog = [],
                        SolutionReport.Tests = []\<rparr>\<rparr>"
  by (simp add: onJudgeSolution_def judgeEnv_def orEmpty_def persistReport_def)

section \<open>Session cookies\<close>

text \<open>
  A cookie that contains the separator never panics: the part before the first
  \<open>_\<close> is parsed, a parse error is returned as it is, an unknown id or another secret
  gives \<open>ErrNoRows\<close>.
\<close>

lemma GetByCookie_with_separator:
  assumes "CHR ''_'' \<in> set cookie"
  shows "GetByCookie sessions cookie =
    (case ParseInt60 (takeWhile (\<lambda>c. c \<noteq> CHR ''_'') cookie) of
       Inl err \<Rightarrow> Returns (Inl err)
     | Inr sid \<Rightarrow>
        (case sessions sid of
           None \<Rightarrow> Returns (Inl ErrNoRows)
         | Some session \<Rightarrow>
             if Secret session \<noteq> tl (dropWhile (\<lambda>c. c \<noteq> CHR ''_'') cookie)
             then Returns (Inl ErrNoRows) else Returns (Inr session)))"
  using assms by (simp add: GetByCookie_def SplitN2_def split: sum.splits option.splits)

text \<open>
  C10.  The cookie \<open>5\<close> has no separator, so \<open>SplitN\<close> yields one part; the session
  with id 5 exists, so the comparison of the secret reads \<open>parts[1]\<close> and the call
  panics instead of returning.
\<close>

theorem GetByCookie_panics_without_separator:
  "GetByCookie [5 \<mapsto> exampleSession] ''5'' = Panics ''index out of range [1] with length 1''"
  by (simp add: GetByCookie_def SplitN2_def ParseInt60_def isDigit_def exampleSession_def)

section \<open>The task queue\<close>

text \<open>
  The hooks keep the mirror consistent: the empty mirror is, and so is a consistent one
  after a task with an unused id is filed.
\<close>

lemma consistent_reset: "consistent reset"
  by (simp add: consistent_def reset_def makeIndex_def entries_def)

lemma entries_makeIndex: "entries makeIndex key = {}"
  by (simp add: makeIndex_def entries_def)

lemma entries_Create:
  "entries (Create m key i) k = (if k = key then insert i (entries m key) else entries m k)"
  by (simp add: Create_def entries_def Let_def)

lemma consistent_onCreateObject:
  assumes "consistent s" and "tasks s (Task.ID task) = None"
  shows "consistent (onCreateObject task s)"
proof -
  have fresh: "\<And>st. Task.ID task \<notin> entries (byStatus s) st"
    using assms unfolding consistent_def by fastforce
  show ?thesis
    unfolding consistent_def
  proof (rule conjI; intro allI impI)
    fix tid t assume "tasks (onCreateObject task s) tid = Some t"
    then show "Task.ID t = tid \<and> tid \<in> entries (byStatus (onCreateObject task s)) (Status t)"
      using assms(1) unfolding consistent_def
      by (fastforce simp: onCreateObject_def entries_Create split: if_splits)
  next
    fix st tid assume "tid \<in> entries (byStatus (onCreateObject task s)) st"
    then show "\<exists>t. tasks (onCreateObject task s) tid = Some t \<and> Status t = st"
      using assms(1) fresh unfolding consistent_def
      by (auto simp: onCreateObject_def entries_Create split: if_splits)
  qed
qed

lemma popLoop_Inr:
  "popLoop s flt env ids = Inr task \<Longrightarrow>
     \<exists>pre tid post t0. ids = pre @ tid # post \<and> tasks s tid = Some t0 \<and> flt (Kind t0)
        \<and> (\<forall>j \<in> set pre. \<forall>t. tasks s j = Some t \<longrightarrow> \<not> flt (Kind t))
        \<and> updateTask env (t0\<lparr>Status := Running, Task.ExpireTime := now env + 5\<rparr>) = None
        \<and> task = t0\<lparr>Status := Running, Task.ExpireTime := now env + 5\<rparr>"
proof (induction ids)
  case Nil
  then show ?case by simp
next
  case (Cons tid ids)
  show ?case
  proof (cases "\<exists>t0. tasks s tid = Some t0 \<and> flt (Kind t0)")
    case True
    then obtain t0 where t0: "tasks s tid = Some t0" "flt (Kind t0)"
      by blast
    with Cons.prems
    have "updateTask env (t0\<lparr>Status := Running, Task.ExpireTime := now env + 5\<rparr>) = None"
      and "task = t0\<lparr>Status := Running, Task.ExpireTime := now env + 5\<rparr>"
      by (auto simp: Let_def split: option.splits)
    with t0 show ?thesis
      by (intro exI[of _ "[]"] exI[of _ tid] exI[of _ ids] exI[of _ t0]) simp
  next
    case False
    with Cons.prems have "popLoop s flt env ids = Inr task"
      by (auto split: option.splits if_splits)
    from Cons.IH[OF this] obtain pre j post t0 where
      h: "ids = pre @ j # post" "tasks s j = Some t0" "flt (Kind t0)"
        "\<forall>j \<in> set pre. \<forall>t. tasks s j = Some t \<longrightarrow> \<not> flt (Kind t)"
        "updateTask env (t0\<lparr>Status := Running, Task.ExpireTime := now env + 5\<rparr>) = None"
        "task = t0\<lparr>Status := Running, Task.ExpireTime := now env + 5\<rparr>"
      by blast
    with False show ?thesis
      by (intro exI[of _ "tid # pre"] exI[of _ j] exI[of _ post] exI[of _ t0]) auto
  qed
qed

lemma popLoop_eligible:
  "\<exists>tid \<in> set ids. \<exists>t0. tasks s tid = Some t0 \<and> flt (Kind t0) \<Longrightarrow>
   \<forall>t. updateTask env t = None \<Longrightarrow>
     \<exists>task. popLoop s flt env ids = Inr task"
  by (induction ids) (auto simp: Let_def split: option.splits)

lemma consistent_expiredStore: "consistent expiredStore"
  unfolding expiredStore_def
  by (intro consistent_onCreateObject consistent_reset) (simp add: reset_def)

lemma consistent_twoQueuedStore: "consistent twoQueuedStore"
  unfolding twoQueuedStore_def
  by (intro consistent_onCreateObject consistent_reset)
     (simp_all add: reset_def onCreateObject_def queuedTask_def)

lemma entries_twoQueuedStore: "entries (byStatus twoQueuedStore) Queued = {1, 2}"
  by (auto simp: twoQueuedStore_def onCreateObject_def reset_def entries_Create
      entries_makeIndex queuedTask_def)

lemma entries_expiredStore: "entries (byStatus expiredStore) Queued = {}"
  by (simp add: expiredStore_def onCreateObject_def reset_def entries_Create
      entries_makeIndex expiredTask_def)

lemma enumerates_twoQueued: "enumerates twoQueuedEnv twoQueuedStore"
  by (auto simp: enumerates_def entries_twoQueuedStore twoQueuedEnv_def)

lemma enumerates_expired: "enumerates expiredEnv expiredStore"
  by (simp add: enumerates_def entries_expiredStore expiredEnv_def)

lemma PopQueued_twoQueued:
  "PopQueued twoQueuedStore anyKind twoQueuedEnv =
     Inr ((queuedTask 2)\<lparr>Status := Running, Task.ExpireTime := 105\<rparr>)"
  by (simp add: twoQueuedStore_def onCreateObject_def reset_def twoQueuedEnv_def queuedTask_def
      PopQueued_def anyKind_def)

text \<open>
  C3, as the code has it.  On a consistent mirror every task that \<open>PopQueued\<close> returns
  was stored with the status \<open>Queued\<close> and a kind the filter accepts; it comes back
  with the status \<open>Running\<close> and a lease of five seconds.  A task stored as
  \<open>Running\<close> is never returned, whatever its expire time.
\<close>

theorem PopQueued_returns_queued_only:
  assumes "consistent s" and "enumerates env s" and "PopQueued s flt env = Inr task"
  shows "\<exists>t0. tasks s (Task.ID task) = Some t0 \<and> Status t0 = Queued \<and> flt (Kind t0)
           \<and> task = t0\<lparr>Status := Running, Task.ExpireTime := now env + 5\<rparr>"
proof -
  from assms(3) have "popLoop s flt env (visit env) = Inr task"
    by (auto simp: PopQueued_def split: option.splits)
  from popLoop_Inr[OF this] obtain pre tid post t0 where
    h: "visit env = pre @ tid # post" "tasks s tid = Some t0" "flt (Kind t0)"
       "task = t0\<lparr>Status := Running, Task.ExpireTime := now env + 5\<rparr>"
    by blast
  from h(1) assms(2) have "tid \<in> entries (byStatus s) Queued"
    by (auto simp: enumerates_def)
  with assms(1) h(2) have "Status t0 = Queued" "Task.ID t0 = tid"
    unfolding consistent_def by fastforce+
  with h show ?thesis
    by auto
qed

theorem PopQueued_returns_queued_only_witness:
  "consistent twoQueuedStore \<and> enumerates twoQueuedEnv twoQueuedStore
   \<and> PopQueued twoQueuedStore anyKind twoQueuedEnv =
       Inr ((queuedTask 2)\<lparr>Status := Running, Task.ExpireTime := 105\<rparr>)
   \<and> (\<exists>t0. tasks twoQueuedStore 2 = Some t0 \<and> Status t0 = Queued)"
  using PopQueued_returns_queued_only
    [OF consistent_twoQueuedStore enumerates_twoQueued PopQueued_twoQueued]
    consistent_twoQueuedStore enumerates_twoQueued PopQueued_twoQueued
  by (auto simp: queuedTask_def)

text \<open>
  The only task of the mirror is running and its lease ended 90 seconds ago; the filter
  accepts every kind; \<open>PopQueued\<close> answers \<open>ErrNoRows\<close>.
\<close>

theorem PopQueued_expired_running_counterexample:
  "consistent expiredStore \<and> enumerates expiredEnv expiredStore
   \<and> tasks expiredStore 1 = Some expiredTask \<and> Status expiredTask = Running
   \<and> Task.ExpireTime expiredTask < now expiredEnv
   \<and> PopQueued expiredStore anyKind expiredEnv = Inl ErrNoRows"
  using consistent_expiredStore enumerates_expired
  by (simp add: expiredStore_def onCreateObject_def reset_def expiredEnv_def
      expiredTask_def PopQueued_def)

text \<open>
  C4, as the code has it.  When locking, synchronising and updating succeed and some
  queued task has a kind the filter accepts, \<open>PopQueued\<close> returns the first such task
  in the order in which the queued ids are visited.  Nothing relates that task's id to
  the other eligible ids.
\<close>

theorem PopQueued_returns_first_visited:
  assumes "consistent s" and "enumerates env s"
    and "lockStore env = None" and "sync env = None" and "\<forall>t. updateTask env t = None"
    and "tasks s tid = Some t1" and "Status t1 = Queued" and "flt (Kind t1)"
  shows "\<exists>pre first post t0. visit env = pre @ first # post
           \<and> tasks s first = Some t0 \<and> Status t0 = Queued \<and> flt (Kind t0)
           \<and> (\<forall>j \<in> set pre. \<forall>t. tasks s j = Some t \<longrightarrow> \<not> flt (Kind t))
           \<and> PopQueued s flt env = Inr (t0\<lparr>Status := Running, Task.ExpireTime := now env + 5\<rparr>)"
proof -
  from assms(1,6,7) have "tid \<in> entries (byStatus s) Queued"
    unfolding consistent_def by fastforce
  with assms(2) have "tid \<in> set (visit env)"
    by (simp add: enumerates_def)
  with assms(6,8) have "\<exists>tid \<in> set (visit env). \<exists>t0. tasks s tid = Some t0 \<and> flt (Kind t0)"
    by blast
  from popLoop_eligible[OF this assms(5)] obtain task where
    p: "popLoop s flt env (visit env) = Inr task"
    by blast
  from popLoop_Inr[OF p] obtain pre first post t0 where
    h: "visit env = pre @ first # post" "tasks s first = Some t0" "flt (Kind t0)"
       "\<forall>j \<in> set pre. \<forall>t. tasks s j = Some t \<longrightarrow> \<not> flt (Kind t)"
       "task = t0\<lparr>Status := Running, Task.ExpireTime := now env + 5\<rparr>"
    by blast
  from h(1) assms(2) have "first \<in> entries (byStatus s) Queued"
    by (auto simp: enumerates_def)
  with assms(1) h(2) have "Status t0 = Queued"
    unfolding consistent_def by fastforce
  moreover from p assms(3,4) have "PopQueued s flt env = Inr task"
    by (simp add: PopQueued_def)
  ultimately show ?thesis
    using h by blast
qed

theorem PopQueued_returns_first_visited_witness:
  "consistent twoQueuedStore \<and> enumerates twoQueuedEnv twoQueuedStore
   \<and> lockStore twoQueuedEnv = None \<and> sync twoQueuedEnv = None
   \<and> (\<forall>t. updateTask twoQueuedEnv t = None)
   \<and> tasks twoQueuedStore 1 = Some (queuedTask 1) \<and> Status (queuedTask 1) = Queued
   \<and> anyKind (Kind (queuedTask 1))
   \<and> (\<exists>t0. PopQueued twoQueuedStore anyKind twoQueuedEnv =
             Inr (t0\<lparr>Status := Running, Task.ExpireTime := now twoQueuedEnv + 5\<rparr>))"
proof -
  have a: "lockStore twoQueuedEnv = None" "sync twoQueuedEnv = None"
    "\<forall>t. updateTask twoQueuedEnv t = None"
    by (simp_all add: twoQueuedEnv_def)
  have b: "tasks twoQueuedStore 1 = Some (queuedTask 1)" "Status (queuedTask 1) = Queued"
    "anyKind (Kind (queuedTask 1))"
    by (simp_all add: twoQueuedStore_def onCreateObject_def reset_def queuedTask_def anyKind_def)
  from PopQueued_returns_first_visited
    [where flt = anyKind, OF consistent_twoQueuedStore enumerates_twoQueued a b]
    consistent_twoQueuedStore enumerates_twoQueued a b
  show ?thesis by blast
qed

text \<open>
  Two queued tasks, 1 and 2, both accepted by the filter; the map iteration visits 2
  first; \<open>PopQueued\<close> returns task 2 although task 1 is eligible and has the smaller id.
\<close>

theorem PopQueued_smallest_id_counterexample:
  "consistent twoQueuedStore \<and> enumerates twoQueuedEnv twoQueuedStore
   \<and> tasks twoQueuedStore 1 = Some (queuedTask 1) \<and> Status (queuedTask 1) = Queued
   \<and> anyKind (Kind (queuedTask 1))
   \<and> PopQueued twoQueuedStore anyKind twoQueuedEnv =
       Inr ((queuedTask 2)\<lparr>Status := Running, Task.ExpireTime := 105\<rparr>)
   \<and> Task.ID ((queuedTask 2)\<lparr>Status := Running, Task.ExpireTime := 105\<rparr>) = 2
   \<and> (1::int) < 2"
  using consistent_twoQueuedStore enumerates_twoQueued PopQueued_twoQueued
  by (simp add: twoQueuedStore_def onCreateObject_def reset_def queuedTask_def anyKind_def)

section \<open>The runner's report\<close>

text \<open>
  The loop ends: when some tick has a non-zero result and no \<open>ensure\<close> fails on the
  ticks up to the first such one, the loop returns with the largest of the starting value
  and the values read, and with the time and the status of its last pass.
\<close>

lemma monitorLoop_total:
  assumes "\<exists>t \<in> set ts. result t \<noteq> 0" and "\<forall>t \<in> set (consumed ts). passes t"
  shows "monitorLoop ctx m ts =
     Some (Inr \<lparr>peakMemory = Max (insert m (sampled ` set (consumed ts))),
                lastElapsed = elapsed (last (consumed ts)),
                lastStatus = status (last (consumed ts))\<rparr>)"
  using assms
proof (induction ts arbitrary: m)
  case Nil
  then show ?case by simp
next
  case (Cons t ts)
  from Cons.prems(2) have p: "passes t"
    by (simp split: if_splits)
  then obtain cur where cur: "sample t = Inr cur"
    by (cases "sample t") (simp_all add: passes_def)
  then have sc: "sampled t = cur" by (simp add: sampled_def)
  from p have ok: "\<not> (result t < 0 \<and> \<not> eintr t)" "\<not> clockFails t" "\<not> killFails t"
    by (auto simp: passes_def)
  show ?case
  proof (cases "result t = 0")
    case True
    with Cons.prems have a: "\<exists>t \<in> set ts. result t \<noteq> 0" and b: "\<forall>t \<in> set (consumed ts). passes t"
      by simp_all
    note ih = Cons.IH[OF a b, of "if cur > m then cur else m"]
    from a have ne: "consumed ts \<noteq> []"
      by (cases ts) (auto split: if_splits)
    have "Max (insert (if cur > m then cur else m) (sampled ` set (consumed ts)))
        = Max (insert m (insert cur (sampled ` set (consumed ts))))"
      using ne by (auto simp: max_def)
    with ih True cur sc ok ne show ?thesis
      by (simp add: Let_def)
  next
    case False
    with cur sc ok show ?thesis
      by (auto simp: Let_def max_def)
  qed
qed

text \<open>
  C8, as the code has it.  When the child ends (some call of \<open>waitpid\<close> returns a
  non-zero result) and no \<open>ensure\<close> fails, the runner returns, and, provided a report
  path was given, the report file consists of exactly the three lines \<open>time\<close>,
  \<open>memory\<close> and \<open>exit_code\<close>, each ended by a newline: the time is the one measured in
  the last pass of the loop, the memory is the largest of 0 and the values sampled in the
  loop (the largest sampled value when none is negative), the exit code is the child's
  exit status, and -1 when the child did not exit normally.  Without a report path no
  file is written.
\<close>

theorem runMonitor_report_file:
  assumes "\<exists>t \<in> set (ticks env). result t \<noteq> 0"
    and "\<forall>t \<in> set (consumed (ticks env)). passes t"
    and "finalSample env = Inr v" and "\<not> openFails env" and "\<not> writeFails env"
  shows "runMonitor ctx env =
      Some (Inr (if report ctx = [] then None
              else Some (''time '' @ showInt (elapsed (last (consumed (ticks env)))) @ [CHR 0x0A]
                @ ''memory '' @ showInt (Max (insert 0 (sampled ` set (consumed (ticks env)))))
                @ [CHR 0x0A]
                @ ''exit_code '' @ showInt (exitCodeOf (status (last (consumed (ticks env)))))
                @ [CHR 0x0A])))
    \<and> (and (status (last (consumed (ticks env)))) 0x7f \<noteq> 0 \<longrightarrow>
         exitCodeOf (status (last (consumed (ticks env)))) = - 1)
    \<and> ((\<forall>t \<in> set (consumed (ticks env)). 0 \<le> sampled t) \<longrightarrow>
         Max (insert 0 (sampled ` set (consumed (ticks env))))
           = Max (sampled ` set (consumed (ticks env))))"
proof -
  note m = monitorLoop_total[OF assms(1,2), of ctx 0]
  from assms(1) have ne: "consumed (ticks env) \<noteq> []"
    by (cases "ticks env") (auto split: if_splits)
  have r: "runMonitor ctx env =
      Some (Inr (if report ctx = [] then None
              else Some (''time '' @ showInt (elapsed (last (consumed (ticks env)))) @ [CHR 0x0A]
                @ ''memory '' @ showInt (Max (insert 0 (sampled ` set (consumed (ticks env)))))
                @ [CHR 0x0A]
                @ ''exit_code '' @ showInt (exitCodeOf (status (last (consumed (ticks env)))))
                @ [CHR 0x0A])))"
    using m assms(3,4,5) by (simp add: runMonitor_def Let_def)
  have e: "and (status (last (consumed (ticks env)))) 0x7f \<noteq> 0 \<longrightarrow>
         exitCodeOf (status (last (consumed (ticks env)))) = - 1"
    by (simp add: exitCodeOf_def)
  have x: "(\<forall>t \<in> set (consumed (ticks env)). 0 \<le> sampled t) \<longrightarrow>
         Max (insert 0 (sampled ` set (consumed (ticks env))))
           = Max (sampled ` set (consumed (ticks env)))"
  proof
    assume nn: "\<forall>t \<in> set (consumed (ticks env)). 0 \<le> sampled t"
    let ?S = "sampled ` set (consumed (ticks env))"
    have f: "finite ?S" and n: "?S \<noteq> {}" using ne by simp_all
    from nn have "\<forall>x \<in> ?S. 0 \<le> x" by auto
    with f n have "0 \<le> Max ?S" by (meson Max_in)
    with f n show "Max (insert 0 ?S) = Max ?S" by simp
  qed
  from r e x show ?thesis by (intro conjI)
qed

text \<open>
  Two passes of the loop: the child runs in the first and has exited with status 1 in the
  second, after 5 ms; the values read from \<open>memory.current\<close> are 4096 and 2048.
\<close>

theorem runMonitor_report_file_witness:
  "result (ticks exampleRun ! 1) \<noteq> 0
   \<and> consumed (ticks exampleRun) = ticks exampleRun
   \<and> passes (ticks exampleRun ! 0) \<and> passes (ticks exampleRun ! 1)
   \<and> finalSample exampleRun = Inr 2048
   \<and> runMonitor exampleContext exampleRun =
     Some (Inr (Some (''time 5'' @ [CHR 0x0A] @ ''memory 4096'' @ [CHR 0x0A]
                      @ ''exit_code 1'' @ [CHR 0x0A])))"
proof -
  have c: "consumed (ticks exampleRun) = ticks exampleRun"
    by (simp add: exampleRun_def)
  have h1: "\<exists>t \<in> set (ticks exampleRun). result t \<noteq> 0"
    by (simp add: exampleRun_def)
  have p: "passes (ticks exampleRun ! 0)" "passes (ticks exampleRun ! 1)"
    by (simp_all add: exampleRun_def passes_def)
  have h2: "\<forall>t \<in> set (consumed (ticks exampleRun)). passes t"
    unfolding c using p by (simp add: exampleRun_def)
  have h3: "finalSample exampleRun = Inr 2048" "\<not> openFails exampleRun" "\<not> writeFails exampleRun"
    by (simp_all add: exampleRun_def)
  have r1: "result (ticks exampleRun ! 1) \<noteq> 0"
    by (simp add: exampleRun_def)
  have v: "(if report exampleContext = [] then None
              else Some (''time '' @ showInt (elapsed (last (consumed (ticks exampleRun)))) @ [CHR 0x0A]
                @ ''memory '' @ showInt (Max (insert 0 (sampled ` set (consumed (ticks exampleRun)))))
                @ [CHR 0x0A]
                @ ''exit_code '' @ showInt (exitCodeOf (status (last (consumed (ticks exampleRun)))))
                @ [CHR 0x0A]))
      = Some (''time 5'' @ [CHR 0x0A] @ ''memory 4096'' @ [CHR 0x0A] @ ''exit_code 1'' @ [CHR 0x0A])"
    unfolding c
    by (simp add: exampleContext_def exampleRun_def sampled_def exitCodeOf_def showInt_def
        digit_def)
  from runMonitor_report_file [OF h1 h2 h3, of exampleContext]
  have "runMonitor exampleContext exampleRun =
      Some (Inr (Some (''time 5'' @ [CHR 0x0A] @ ''memory 4096'' @ [CHR 0x0A]
                      @ ''exit_code 1'' @ [CHR 0x0A])))"
    unfolding v by (rule conjunct1)
  with r1 c p h3(1) show ?thesis by (intro conjI)
qed

text \<open>With an empty report path the same run ends without writing a file.\<close>

theorem runMonitor_report_file_counterexample:
  "report (exampleContext\<lparr>report := []\<rparr>) = []
   \<and> runMonitor (exampleContext\<lparr>report := []\<rparr>) exampleRun = Some (Inr None)"
  by (simp add: runMonitor_def exampleContext_def exampleRun_def exitCodeOf_def Let_def)

section \<open>The event consumer: the loops\<close>

text \<open>
  The shifting loop of the split duplicates the range at \<open>it\<close>; the two assignments
  after it turn the copies into the part before the event and the part after it.
\<close>

lemma shift_step:
  assumes jl: "Suc j < length rs"
  shows "(take (Suc (Suc j)) rs @ drop (Suc j) rs)[Suc j := (take (Suc (Suc j)) rs @ drop (Suc j) rs) ! j]
      = take (Suc j) rs @ drop j rs"
proof -
  have t: "take (Suc (Suc j)) rs = take (Suc j) rs @ [rs ! Suc j]"
    using jl by (rule take_Suc_conv_app_nth)
  have l: "length (take (Suc j) rs) = Suc j"
    using jl by simp
  have a: "(take (Suc (Suc j)) rs @ drop (Suc j) rs) ! j = rs ! j"
    using jl by (simp add: nth_append del: take_Suc)
  have d: "drop j rs = rs ! j # drop (Suc j) rs"
    using jl by (simp add: Cons_nth_drop_Suc del: drop_Suc)
  have "(take (Suc (Suc j)) rs @ drop (Suc j) rs)[Suc j := rs ! j]
      = (take (Suc j) rs @ ([rs ! Suc j] @ drop (Suc j) rs))[Suc j := rs ! j]"
    by (simp only: t append_assoc)
  also have "\<dots> = take (Suc j) rs @ (([rs ! Suc j] @ drop (Suc j) rs)[0 := rs ! j])"
    using l by (simp add: list_update_append del: take_Suc drop_Suc)
  also have "\<dots> = take (Suc j) rs @ drop j rs"
    by (simp add: d del: take_Suc drop_Suc)
  finally show ?thesis
    by (simp only: a)
qed


lemma shiftRight_aux:
  "it \<le> k \<Longrightarrow> Suc k \<le> length rs \<Longrightarrow>
   shiftRight (take (Suc k) rs @ drop k rs) it (int k - 1) = take (Suc it) rs @ drop it rs"
proof (induction "k - it" arbitrary: k)
  case 0
  then have "k = it" by simp
  then show ?case by (subst shiftRight.simps) (simp del: take_Suc drop_Suc)
next
  case (Suc d)
  then obtain j where k: "k = Suc j" and j: "it \<le> j" "d = j - it"
    by (cases k) auto
  have jl: "Suc j < length rs" using Suc.prems k by simp
  have cond: "int it \<le> int k - 1" using k j by simp
  have i1: "nat (int (Suc j) - 1 + 1) = Suc j" by simp
  have i2: "nat (int (Suc j) - 1) = j" by simp
  have i3: "int (Suc j) - 1 - 1 = int j - 1" by simp
  have "shiftRight (take (Suc k) rs @ drop k rs) it (int k - 1)
     = shiftRight ((take (Suc k) rs @ drop k rs)[nat (int k - 1 + 1) := (take (Suc k) rs @ drop k rs) ! nat (int k - 1)]) it (int k - 1 - 1)"
    using cond by (subst shiftRight.simps) (simp only: if_True)
  also have "\<dots> = shiftRight (take (Suc j) rs @ drop j rs) it (int j - 1)"
    unfolding k unfolding i1 i2 i3 by (simp only: shift_step[OF jl])
  also have "\<dots> = take (Suc it) rs @ drop it rs"
    using Suc.hyps(1)[of j] j jl by simp
  finally show ?case .
qed

lemma splitRange_eq:
  assumes "it < length rs"
  shows "splitRange rs it eid =
     take it rs @ [(rs ! it)\<lparr>End := eid\<rparr>, (rs ! it)\<lparr>Begin := int64 (eid + 1)\<rparr>] @ drop (Suc it) rs"
proof -
  let ?n = "length rs"
  have n: "?n \<ge> 1" using assms by simp
  have e1: "rs @ [rs ! (?n - 1)] = take (Suc (?n - 1)) rs @ drop (?n - 1) rs"
  proof -
    have "drop (?n - 1) rs = [rs ! (?n - 1)]"
      using n Cons_nth_drop_Suc[of "?n - 1" rs] by simp
    then show ?thesis using n by simp
  qed
  have e2: "int (length (rs @ [rs ! (?n - 1)])) - 3 = int (?n - 1) - 1"
    using n by simp
  have s: "shiftRight (rs @ [rs ! (?n - 1)]) it (int (length (rs @ [rs ! (?n - 1)])) - 3)
      = take (Suc it) rs @ drop it rs"
    unfolding e2 unfolding e1 using shiftRight_aux[of it "?n - 1" rs] assms n by simp
  have d: "drop it rs = rs ! it # drop (Suc it) rs"
    using assms by (simp add: Cons_nth_drop_Suc del: drop_Suc)
  have t: "take (Suc it) rs = take it rs @ [rs ! it]"
    using assms by (rule take_Suc_conv_app_nth)
  have l: "length (take it rs) = it" using assms by simp
  have "splitRange rs it eid =
     (let rs2 = take it rs @ [rs ! it, rs ! it] @ drop (Suc it) rs;
          rs3 = rs2[it := (rs2 ! it)\<lparr>End := eid\<rparr>]
      in rs3[it + 1 := (rs3 ! (it + 1))\<lparr>Begin := int64 (eid + 1)\<rparr>])"
    unfolding splitRange_def Let_def s unfolding t d by (simp del: take_Suc drop_Suc)
  also have "\<dots> = take it rs @ [(rs ! it)\<lparr>End := eid\<rparr>, (rs ! it)\<lparr>Begin := int64 (eid + 1)\<rparr>] @ drop (Suc it) rs"
    using l by (simp add: Let_def nth_append list_update_append del: take_Suc drop_Suc)
  finally show ?thesis .
qed


lemma compactLoop_take:
  "newLen \<le> i \<Longrightarrow>
   take (snd (compactLoop rs newLen i)) (fst (compactLoop rs newLen i))
     = take newLen rs @ filter (\<lambda>rng. Begin rng \<noteq> End rng) (drop i rs)"
proof (induction rs newLen i rule: compactLoop.induct)
  case (1 rs newLen i)
  show ?case
  proof (cases "i < length rs")
    case False
    then show ?thesis
      by (subst (1 2) compactLoop.simps) simp
  next
    case True
    note il = this
    have d: "drop i rs = rs ! i # drop (Suc i) rs"
      using il by (simp add: Cons_nth_drop_Suc del: drop_Suc)
    show ?thesis
    proof (cases "Begin (rs ! i) \<noteq> End (rs ! i)")
      case True
      have nl: "newLen < length rs" using il "1.prems" by simp
      have t: "take (Suc newLen) (rs[newLen := rs ! i]) = take newLen rs @ [rs ! i]"
        using nl by (simp add: take_Suc_conv_app_nth del: take_Suc)
      have dd: "drop (Suc i) (rs[newLen := rs ! i]) = drop (Suc i) rs"
        using "1.prems" by (simp del: drop_Suc)
      have "take (snd (compactLoop rs newLen i)) (fst (compactLoop rs newLen i))
          = take (snd (compactLoop (rs[newLen := rs ! i]) (Suc newLen) (Suc i)))
                 (fst (compactLoop (rs[newLen := rs ! i]) (Suc newLen) (Suc i)))"
        using il True by (subst (1 2) compactLoop.simps) (simp del: take_Suc drop_Suc)
      also have "\<dots> = take (Suc newLen) (rs[newLen := rs ! i])
                       @ filter (\<lambda>rng. Begin rng \<noteq> End rng) (drop (Suc i) (rs[newLen := rs ! i]))"
        using "1.IH"(1)[OF il True] "1.prems" by simp
      also have "\<dots> = take newLen rs @ filter (\<lambda>rng. Begin rng \<noteq> End rng) (drop i rs)"
        unfolding t dd d using True by (simp del: take_Suc drop_Suc)
      finally show ?thesis .
    next
      case False
      have "take (snd (compactLoop rs newLen i)) (fst (compactLoop rs newLen i))
          = take (snd (compactLoop rs newLen (Suc i))) (fst (compactLoop rs newLen (Suc i)))"
        using il False by (subst (1 2) compactLoop.simps) (simp del: take_Suc drop_Suc)
      also have "\<dots> = take newLen rs @ filter (\<lambda>rng. Begin rng \<noteq> End rng) (drop (Suc i) rs)"
        using "1.IH"(2)[OF il] False "1.prems" by simp
      also have "\<dots> = take newLen rs @ filter (\<lambda>rng. Begin rng \<noteq> End rng) (drop i rs)"
        unfolding d using False by (simp del: take_Suc drop_Suc)
      finally show ?thesis .
    qed
  qed
qed

lemma removeEmptyRanges_eq:
  "removeEmptyRanges rs =
     (let rs2 = filter (\<lambda>rng. Begin rng \<noteq> End rng) rs
      in if length rs2 > eventGapSkipWindow then drop (length rs2 - eventGapSkipWindow) rs2 else rs2)"
proof -
  obtain rs1 n where c: "compactLoop rs 0 0 = (rs1, n)"
    by (cases "compactLoop rs 0 0")
  with compactLoop_take[of 0 0 rs] have "take n rs1 = filter (\<lambda>rng. Begin rng \<noteq> End rng) rs"
    by simp
  then show ?thesis
    unfolding removeEmptyRanges_def c by (simp only: Let_def split)
qed

lemma advance_append:
  "advance (xs @ zs) (length xs) eid = length xs + length (takeWhile (\<lambda>rng. \<not> contains rng eid) zs)"
proof (induction zs arbitrary: xs)
  case Nil
  then show ?case by (subst advance.simps) simp
next
  case (Cons z zs)
  show ?case
  proof (cases "contains z eid")
    case True
    then show ?thesis by (subst advance.simps) simp
  next
    case False
    have "advance (xs @ z # zs) (length xs) eid = advance ((xs @ [z]) @ zs) (length (xs @ [z])) eid"
      using False by (subst advance.simps) simp
    also have "\<dots> = length (xs @ [z]) + length (takeWhile (\<lambda>rng. \<not> contains rng eid) zs)"
      by (rule Cons.IH)
    finally show ?thesis using False by simp
  qed
qed

section \<open>The event consumer: ranges and pending ids\<close>

lemma int64_succ: "0 \<le> x \<Longrightarrow> x < 2 ^ 63 - 1 \<Longrightarrow> int64 (x + 1) = x + 1"
  by (simp add: int64_def)

lemma step_decomp:
  assumes "1 \<le> Begin r" and "Begin r \<le> eid" and "eid < 2 ^ 63 - 1"
  shows "(if eid = Begin ((xs @ r # ys) ! length xs)
    then (xs @ r # ys)[length xs := ((xs @ r # ys) ! length xs)\<lparr>Begin := int64 (Begin ((xs @ r # ys) ! length xs) + 1)\<rparr>]
    else splitRange (xs @ r # ys) (length xs) eid)
   = xs @ (if eid = Begin r then [r\<lparr>Begin := eid + 1\<rparr>] else [r\<lparr>End := eid\<rparr>, r\<lparr>Begin := eid + 1\<rparr>]) @ ys"
proof -
  from assms have a: "int64 (eid + 1) = eid + 1"
    by (intro int64_succ) simp_all
  show ?thesis
  proof (cases "eid = Begin r")
    case True
    with a have "int64 (Begin r + 1) = Begin r + 1" by simp
    with True show ?thesis by simp
  next
    case False
    with a show ?thesis by (simp add: splitRange_eq)
  qed
qed

lemma ordered_Cons:
  "ordered (r # ys) \<longleftrightarrow>
     1 \<le> Begin r \<and> (\<forall>y \<in> set ys. Begin r \<le> End r \<and> End r < Begin y) \<and> ordered ys"
  by (auto simp: ordered_def)

lemma ordered_Nil: "ordered []"
  by (simp add: ordered_def)

lemma ordered_append:
  "ordered (xs @ ys) \<longleftrightarrow>
     ordered xs \<and> ordered ys \<and> (\<forall>x \<in> set xs. \<forall>y \<in> set ys. Begin x \<le> End x \<and> End x < Begin y)"
  by (auto simp: ordered_def sorted_wrt_append)

lemma pending_append: "pending (xs @ ys) = pending xs \<union> pending ys"
  by (auto simp: pending_def)

lemma pending_Cons: "pending (r # ys) = {eid. contains r eid} \<union> pending ys"
  by (auto simp: pending_def)

lemma pending_Nil: "pending [] = {}"
  by (simp add: pending_def)

lemma before_not_pending:
  assumes "\<forall>x \<in> set xs. 1 \<le> Begin x \<and> Begin x \<le> End x \<and> End x \<le> eid"
  shows "eid \<notin> pending xs"
  using assms by (fastforce simp: pending_def contains_def)

lemma after_not_pending:
  assumes "\<forall>y \<in> set ys. eid < Begin y"
  shows "eid \<notin> pending ys"
  using assms by (fastforce simp: pending_def contains_def)

lemma ordered_step:
  assumes o: "ordered (xs @ r # ys)" and l: "ys = [] \<longrightarrow> End r = 0" and c: "contains r eid"
  defines "new \<equiv> (if eid = Begin r then [r\<lparr>Begin := eid + 1\<rparr>] else [r\<lparr>End := eid\<rparr>, r\<lparr>Begin := eid + 1\<rparr>])"
  shows "ordered (xs @ new @ ys)"
    and "End (last (new @ ys)) = End (last (r # ys))"
    and "pending (new @ ys) = pending (r # ys) - {eid}"
    and "eid \<notin> pending xs"
proof -
  from o have ox: "ordered xs" and oy: "ordered ys" and r1: "1 \<le> Begin r"
    and xr: "\<forall>x \<in> set xs. Begin x \<le> End x \<and> End x < Begin r"
    and xy: "\<forall>x \<in> set xs. \<forall>y \<in> set ys. Begin x \<le> End x \<and> End x < Begin y"
    and ry: "\<forall>y \<in> set ys. Begin r \<le> End r \<and> End r < Begin y"
    by (auto simp: ordered_append ordered_Cons)
  from c have be: "Begin r \<le> eid" by (simp add: contains_def)
  have ub: "ys \<noteq> [] \<Longrightarrow> eid < End r"
  proof -
    assume "ys \<noteq> []"
    then obtain y where "y \<in> set ys" by (cases ys) auto
    with ry r1 have "1 \<le> End r" by fastforce
    with c show ?thesis by (auto simp: contains_def)
  qed
  from ox have x1: "\<forall>x \<in> set xs. 1 \<le> Begin x" by (simp add: ordered_def)
  show "ordered (xs @ new @ ys)"
  proof (cases "ys = []")
    case True
    with ox r1 xr be show ?thesis
      by (auto simp: new_def ordered_append ordered_Cons ordered_Nil)
  next
    case False
    from ub[OF False] ox oy r1 xr xy ry be show ?thesis
      by (auto simp: new_def ordered_append ordered_Cons ordered_Nil)
  qed
  show "End (last (new @ ys)) = End (last (r # ys))"
    by (simp add: new_def)
  show "eid \<notin> pending xs"
    using xr x1 be by (intro before_not_pending) fastforce
  have ey: "eid \<notin> pending ys"
  proof (cases "ys = []")
    case True then show ?thesis by (simp add: pending_Nil)
  next
    case False
    from ub[OF False] ry show ?thesis by (intro after_not_pending) fastforce
  qed
  have "{e. contains r e} - {eid} = pending new"
  proof (cases "ys = []")
    case True
    with l have "End r = 0" by simp
    with r1 be show ?thesis
      by (auto simp: new_def pending_Cons pending_Nil contains_def)
  next
    case False
    from ub[OF False] r1 be show ?thesis
      by (auto simp: new_def pending_Cons pending_Nil contains_def)
  qed
  with ey show "pending (new @ ys) = pending (r # ys) - {eid}"
    by (auto simp: pending_append pending_Cons)
qed

lemma split_at_first:
  assumes "eid \<in> pending zs"
  obtains skipped r ys where "zs = skipped @ r # ys" and "contains r eid"
    and "skipped = takeWhile (\<lambda>rng. \<not> contains rng eid) zs"
proof -
  let ?P = "\<lambda>rng. \<not> contains rng eid"
  from assms have "\<exists>rng \<in> set zs. \<not> ?P rng" by (auto simp: pending_def)
  then have "dropWhile ?P zs \<noteq> []" by (simp add: dropWhile_eq_Nil_conv)
  then obtain r ys where d: "dropWhile ?P zs = r # ys" by (cases "dropWhile ?P zs") auto
  then have "\<not> ?P r" using hd_dropWhile[of ?P zs] by auto
  moreover have "zs = takeWhile ?P zs @ r # ys" using d takeWhile_dropWhile_id[of ?P zs] by simp
  ultimately show ?thesis using that by blast
qed

lemma consumeLoop_spec:
  assumes "ordered (xs @ zs)" and "zs \<noteq> []" and "End (last zs) = 0"
    and "sorted_wrt (<) es" and "set es \<subseteq> pending zs"
    and "\<forall>eid \<in> set es. eid < 2 ^ 63 - 1"
  shows "\<exists>rs'. consumeLoop fn (xs @ zs) (length xs) es =
           (case dropWhile (\<lambda>x. fn x = None) es of [] \<Rightarrow> None | x # rest \<Rightarrow> fn x,
            rs',
            takeWhile (\<lambda>x. fn x = None) es @ take 1 (dropWhile (\<lambda>x. fn x = None) es))
         \<and> wellFormed rs'
         \<and> pending rs' = pending (xs @ zs) - set (takeWhile (\<lambda>x. fn x = None) es)"
  using assms
proof (induction es arbitrary: xs zs)
  case Nil
  then show ?case by (simp add: wellFormed_def)
next
  case (Cons eid rest)
  from Cons.prems(5) have ep: "eid \<in> pending zs" by simp
  from split_at_first[OF ep] obtain skipped r ys where
    zs: "zs = skipped @ r # ys" and c: "contains r eid"
    and sk: "skipped = takeWhile (\<lambda>rng. \<not> contains rng eid) zs" by blast
  let ?xs = "xs @ skipped"
  have rs: "xs @ zs = ?xs @ r # ys" using zs by simp
  have adv: "advance (xs @ zs) (length xs) eid = length ?xs"
    using advance_append[of xs zs eid] sk by simp
  have lt: "length ?xs \<noteq> length (xs @ zs)" using zs by simp
  have wf0: "wellFormed (xs @ zs)"
    using Cons.prems(1,2,3) by (simp add: wellFormed_def)
  show ?case
  proof (cases "fn eid")
    case (Some e)
    have "consumeLoop fn (xs @ zs) (length xs) (eid # rest) = (Some e, xs @ zs, [eid])"
      apply (subst consumeLoop.simps(2))
      apply (simp only: Let_def adv)
      apply (simp only: lt if_False Some option.case)
      done
    with Some wf0 show ?thesis by simp
  next
    case None
    let ?new = "(if eid = Begin r then [r\<lparr>Begin := eid + 1\<rparr>] else [r\<lparr>End := eid\<rparr>, r\<lparr>Begin := eid + 1\<rparr>])"
    have o: "ordered (?xs @ r # ys)" using Cons.prems(1) rs by simp
    have l: "ys = [] \<longrightarrow> End r = 0" using Cons.prems(3) zs by auto
    note st = ordered_step[OF o l c]
    from o have r1: "1 \<le> Begin r"
      by (simp add: ordered_append ordered_Cons)
    from c have be: "Begin r \<le> eid"
      by (simp add: contains_def)
    from Cons.prems(6) have bound: "eid < 2 ^ 63 - 1"
      by simp
    have stepeq: "(if eid = Begin ((xs @ zs) ! length ?xs)
            then (xs @ zs)[length ?xs := ((xs @ zs) ! length ?xs)\<lparr>Begin := int64 (Begin ((xs @ zs) ! length ?xs) + 1)\<rparr>]
            else splitRange (xs @ zs) (length ?xs) eid) = ?xs @ ?new @ ys"
      unfolding rs by (rule step_decomp[OF r1 be bound])
    have unfold: "consumeLoop fn (xs @ zs) (length xs) (eid # rest) =
        (let (err, rs', ds) = consumeLoop fn (?xs @ ?new @ ys) (length ?xs) rest in (err, rs', eid # ds))"
      apply (subst consumeLoop.simps(2))
      apply (simp only: Let_def adv)
      apply (simp only: lt if_False None option.case stepeq)
      done
    have p1: "?new @ ys \<noteq> []" by simp
    have p2: "End (last (?new @ ys)) = 0"
      using st(2) Cons.prems(3) zs by simp
    have p3: "sorted_wrt (<) rest" using Cons.prems(4) by simp
    have p4: "set rest \<subseteq> pending (?new @ ys)"
    proof
      fix x assume x: "x \<in> set rest"
      with Cons.prems(4) have gt: "eid < x" by auto
      from x Cons.prems(5) have "x \<in> pending zs" by auto
      then have "x \<in> pending skipped \<or> x \<in> pending (r # ys)"
        unfolding zs by (simp add: pending_append)
      moreover have "x \<notin> pending skipped"
      proof (rule before_not_pending)
        from o have "ordered skipped"
          and "\<forall>s \<in> set skipped. Begin s \<le> End s \<and> End s < Begin r"
          by (simp_all add: ordered_append ordered_Cons)
        then have "\<forall>s \<in> set skipped. 1 \<le> Begin s \<and> Begin s \<le> End s \<and> End s < Begin r"
          by (simp add: ordered_def)
        moreover from c have "Begin r \<le> eid" by (simp add: contains_def)
        ultimately show "\<forall>s \<in> set skipped. 1 \<le> Begin s \<and> Begin s \<le> End s \<and> End s \<le> x"
          using gt by fastforce
      qed
      ultimately have "x \<in> pending (r # ys)" by blast
      with gt st(3) show "x \<in> pending (?new @ ys)" by auto
    qed
    have p5: "\<forall>eid \<in> set rest. eid < 2 ^ 63 - 1" using Cons.prems(6) by simp
    from Cons.IH[of ?xs "?new @ ys", OF st(1) p1 p2 p3 p4 p5] obtain rs' where
      ih: "consumeLoop fn (?xs @ ?new @ ys) (length ?xs) rest =
             (case dropWhile (\<lambda>x. fn x = None) rest of [] \<Rightarrow> None | x # rest \<Rightarrow> fn x,
              rs',
              takeWhile (\<lambda>x. fn x = None) rest @ take 1 (dropWhile (\<lambda>x. fn x = None) rest))"
      and wf: "wellFormed rs'"
      and pe: "pending rs' = pending (?xs @ ?new @ ys) - set (takeWhile (\<lambda>x. fn x = None) rest)"
      by blast
    have "pending (?xs @ ?new @ ys) = pending (xs @ zs) - {eid}"
      unfolding rs using st(3,4) by (auto simp: pending_append)
    with pe have "pending rs' = pending (xs @ zs) - set (takeWhile (\<lambda>x. fn x = None) (eid # rest))"
      using None by auto
    with unfold ih wf None show ?thesis by simp
  qed
qed

lemma ordered_ge1: "ordered rs \<Longrightarrow> rng \<in> set rs \<Longrightarrow> 1 \<le> Begin rng"
  by (simp add: ordered_def)

lemma distinct_loaded:
  "ordered rs \<Longrightarrow> distinct evs \<Longrightarrow>
   distinct (concat (map (\<lambda>rng. filter (\<lambda>event. contains rng event) evs) rs))"
proof (induction rs)
  case Nil
  then show ?case by simp
next
  case (Cons r rs)
  from Cons.prems(1) have o: "ordered rs" and r1: "1 \<le> Begin r"
    and ry: "\<forall>y \<in> set rs. Begin r \<le> End r \<and> End r < Begin y"
    by (simp_all add: ordered_Cons)
  have "\<And>e y. contains r e \<Longrightarrow> y \<in> set rs \<Longrightarrow> contains y e \<Longrightarrow> False"
  proof -
    fix e y assume a: "contains r e" "y \<in> set rs" "contains y e"
    with ry have b: "Begin r \<le> End r" "End r < Begin y" by auto
    with r1 a(1) have "e < End r" by (auto simp: contains_def)
    moreover from a(3) have "Begin y \<le> e" by (simp add: contains_def)
    ultimately show False using b by simp
  qed
  then have "set (filter (\<lambda>event. contains r event) evs)
      \<inter> set (concat (map (\<lambda>rng. filter (\<lambda>event. contains rng event) evs) rs)) = {}"
    by auto
  with Cons.IH[OF o Cons.prems(2)] Cons.prems(2) show ?case by simp
qed

lemma LoadEvents_set: "set (LoadEvents evs rs) = set evs \<inter> pending rs"
  by (auto simp: LoadEvents_def pending_def)

lemma LoadEvents_sorted:
  "ordered rs \<Longrightarrow> distinct evs \<Longrightarrow> sorted_wrt (<) (LoadEvents evs rs)"
  unfolding LoadEvents_def
  by (simp add: strict_sorted_iff distinct_loaded)



lemma last_filter_keep:
  "xs \<noteq> [] \<Longrightarrow> P (last xs) \<Longrightarrow> last (filter P xs) = last xs"
proof (induction xs)
  case Nil
  then show ?case by simp
next
  case (Cons x xs)
  show ?case
  proof (cases "xs = []")
    case True
    with Cons.prems show ?thesis by simp
  next
    case False
    with Cons.prems have p: "P (last xs)" by simp
    from False have "last xs \<in> set xs" by simp
    with p have "filter P xs \<noteq> []" by (auto simp: filter_empty_conv)
    with Cons.IH[OF False p] False show ?thesis by simp
  qed
qed

lemma removeEmptyRanges_wellFormed:
  assumes "wellFormed rs"
  shows "wellFormed (removeEmptyRanges rs)"
    and "pending (removeEmptyRanges rs) \<subseteq> pending rs"
    and "\<forall>rng \<in> set (removeEmptyRanges rs). Begin rng \<noteq> End rng"
proof -
  let ?P = "\<lambda>rng. Begin rng \<noteq> End rng"
  let ?f = "filter ?P rs"
  from assms have ne: "rs \<noteq> []" and l: "End (last rs) = 0" and o: "ordered rs"
    by (simp_all add: wellFormed_def)
  from ne have lin: "last rs \<in> set rs" by simp
  from o lin have "1 \<le> Begin (last rs)" by (rule ordered_ge1)
  with l have pl: "?P (last rs)" by simp
  have fl: "last ?f = last rs" using ne pl by (rule last_filter_keep)
  have fne: "?f \<noteq> []" using pl lin by (auto simp: filter_empty_conv)
  have fo: "ordered ?f" using o by (auto simp: ordered_def sorted_wrt_filter)
  have wf: "wellFormed ?f" using fne fl l fo by (simp add: wellFormed_def)
  have set_sub: "\<And>k. set (drop k ?f) \<subseteq> set rs"
    by (meson filter_is_subset order_trans set_drop_subset)
  have dwf: "\<And>k. k < length ?f \<Longrightarrow> wellFormed (drop k ?f)"
  proof -
    fix k assume k: "k < length ?f"
    have "ordered (drop k ?f)"
      using fo set_drop_subset[of k ?f] by (auto simp: ordered_def sorted_wrt_drop)
    moreover have "last (drop k ?f) = last ?f" using k by simp
    ultimately show "wellFormed (drop k ?f)" using k fl l by (simp add: wellFormed_def)
  qed
  have eq: "removeEmptyRanges rs =
      (if length ?f > eventGapSkipWindow then drop (length ?f - eventGapSkipWindow) ?f else ?f)"
    by (simp add: removeEmptyRanges_eq Let_def)
  have w: "0 < eventGapSkipWindow" by (simp add: eventGapSkipWindow_def)
  show "wellFormed (removeEmptyRanges rs)"
    unfolding eq using wf dwf[of "length ?f - eventGapSkipWindow"] w by auto
  show "pending (removeEmptyRanges rs) \<subseteq> pending rs"
    unfolding eq using set_sub[of "length ?f - eventGapSkipWindow"]
    by (auto simp: pending_def)
  show "\<forall>rng \<in> set (removeEmptyRanges rs). Begin rng \<noteq> End rng"
    unfolding eq using set_drop_subset[of "length ?f - eventGapSkipWindow" ?f] by auto
qed

lemma removeEmptyRanges_pending:
  assumes "wellFormed rs"
    and "length (filter (\<lambda>rng. Begin rng \<noteq> End rng) rs) \<le> eventGapSkipWindow"
  shows "pending (removeEmptyRanges rs) = pending rs"
proof -
  let ?P = "\<lambda>rng. Begin rng \<noteq> End rng"
  from assms(1) have o: "ordered rs" by (simp add: wellFormed_def)
  have eq: "removeEmptyRanges rs = filter ?P rs"
    using assms(2) by (simp add: removeEmptyRanges_eq Let_def)
  have "\<And>rng eid. rng \<in> set rs \<Longrightarrow> contains rng eid \<Longrightarrow> ?P rng"
  proof
    fix rng eid assume a: "rng \<in> set rs" "contains rng eid" "Begin rng = End rng"
    from o a(1) have "1 \<le> Begin rng" by (rule ordered_ge1)
    with a(2,3) show False by (auto simp: contains_def)
  qed
  then show ?thesis unfolding eq by (auto simp: pending_def)
qed

lemma ConsumeEvents_spec:
  fixes fn :: "int \<Rightarrow> error option"
  assumes wf: "wellFormed (ranges c)" and v: "validIds store"
    and le: "loadError store = None"
  defines "L \<equiv> LoadEvents (events store) (ranges c)"
  defines "tw \<equiv> takeWhile (\<lambda>x. fn x = None) L"
  defines "dw \<equiv> dropWhile (\<lambda>x. fn x = None) L"
  shows "delivered (ConsumeEvents store fn c) = tw @ take 1 dw"
    and "failure (ConsumeEvents store fn c) = (case dw of [] \<Rightarrow> readError store | x # rest \<Rightarrow> fn x)"
    and "wellFormed (ranges (consumer (ConsumeEvents store fn c)))"
    and "pending (ranges (consumer (ConsumeEvents store fn c))) \<subseteq> pending (ranges c) - set tw"
    and "dw \<noteq> [] \<Longrightarrow> pending (ranges (consumer (ConsumeEvents store fn c))) = pending (ranges c) - set tw"
    and "dw = [] \<Longrightarrow> \<forall>rng \<in> set (ranges (consumer (ConsumeEvents store fn c))). Begin rng \<noteq> End rng"
    and "dw \<noteq> [] \<Longrightarrow> tw = [] \<Longrightarrow> consumer (ConsumeEvents store fn c) = c"
    and "gapsLeft store fn c \<le> eventGapSkipWindow \<Longrightarrow>
           pending (ranges (consumer (ConsumeEvents store fn c))) = pending (ranges c) - set tw"
proof -
  from wf have o: "ordered (ranges c)" and ne: "ranges c \<noteq> []" and l: "End (last (ranges c)) = 0"
    by (simp_all add: wellFormed_def)
  from v have d: "distinct (events store)" by (simp add: validIds_def)
  have s: "sorted_wrt (<) L" unfolding L_def using o d by (rule LoadEvents_sorted)
  have p: "set L \<subseteq> pending (ranges c)" unfolding L_def by (simp add: LoadEvents_set)
  have b: "\<forall>eid \<in> set L. eid < 2 ^ 63 - 1"
    unfolding L_def using v by (simp add: LoadEvents_set validIds_def)
  from consumeLoop_spec[of "[]" "ranges c" L fn] o ne l s p b obtain rs' where
    cl: "consumeLoop fn (ranges c) 0 L = (case dw of [] \<Rightarrow> None | x # rest \<Rightarrow> fn x, rs', tw @ take 1 dw)"
    and wf': "wellFormed rs'" and pe: "pending rs' = pending (ranges c) - set tw"
    unfolding tw_def dw_def by auto
  have first_tw: "dw \<noteq> [] \<Longrightarrow> tw = [] \<Longrightarrow> rs' = ranges c"
  proof -
    assume a: "dw \<noteq> []" "tw = []"
    then obtain x rest where L: "L = x # rest" and fx: "fn x \<noteq> None"
      unfolding tw_def dw_def by (cases L) (auto split: if_splits)
    then obtain e where e: "fn x = Some e" by auto
    have adv: "(advance (ranges c) 0 x = length (ranges c)) = False"
    proof -
      from p L have "x \<in> pending (ranges c)" by simp
      from split_at_first[OF this] obtain skipped r ys where
        a: "ranges c = skipped @ r # ys"
        and b: "skipped = takeWhile (\<lambda>rng. \<not> contains rng x) (ranges c)"
        by blast
      have "length (ranges c) = length skipped + Suc (length ys)"
        using arg_cong[OF a, of length] by simp
      moreover have "advance (ranges c) 0 x = length skipped"
        using advance_append[of "[]" "ranges c" x] unfolding b by simp
      ultimately show ?thesis by simp
    qed
    have "consumeLoop fn (ranges c) 0 L = (Some e, ranges c, [x])"
      unfolding L
      apply (subst consumeLoop.simps(2))
      apply (simp only: Let_def adv if_False e option.case)
      done
    with cl show ?thesis by simp
  qed
  show "delivered (ConsumeEvents store fn c) = tw @ take 1 dw"
    and "failure (ConsumeEvents store fn c) = (case dw of [] \<Rightarrow> readError store | x # rest \<Rightarrow> fn x)"
    and "wellFormed (ranges (consumer (ConsumeEvents store fn c)))"
    and "pending (ranges (consumer (ConsumeEvents store fn c))) \<subseteq> pending (ranges c) - set tw"
    and "dw \<noteq> [] \<Longrightarrow> pending (ranges (consumer (ConsumeEvents store fn c))) = pending (ranges c) - set tw"
    and "dw = [] \<Longrightarrow> \<forall>rng \<in> set (ranges (consumer (ConsumeEvents store fn c))). Begin rng \<noteq> End rng"
    and "dw \<noteq> [] \<Longrightarrow> tw = [] \<Longrightarrow> consumer (ConsumeEvents store fn c) = c"
    and "gapsLeft store fn c \<le> eventGapSkipWindow \<Longrightarrow>
           pending (ranges (consumer (ConsumeEvents store fn c))) = pending (ranges c) - set tw"
  proof -
    show "delivered (ConsumeEvents store fn c) = tw @ take 1 dw"
    proof (cases dw)
      case Nil
      with cl have "consumeLoop fn (ranges c) 0 L = (None, rs', tw)" by simp
      then show ?thesis
        unfolding ConsumeEvents_def L_def[symmetric] using le Nil by simp
    next
      case (Cons x rest)
      with hd_dropWhile[of "\<lambda>x. fn x = None" L] obtain e where e: "fn x = Some e"
        unfolding dw_def by auto
      with cl Cons have "consumeLoop fn (ranges c) 0 L = (Some e, rs', tw @ [x])" by simp
      then show ?thesis
        unfolding ConsumeEvents_def L_def[symmetric] using le Cons by simp
    qed
    show "failure (ConsumeEvents store fn c) = (case dw of [] \<Rightarrow> readError store | x # rest \<Rightarrow> fn x)"
    proof (cases dw)
      case Nil
      with cl have "consumeLoop fn (ranges c) 0 L = (None, rs', tw)" by simp
      then show ?thesis
        unfolding ConsumeEvents_def L_def[symmetric] using le Nil by simp
    next
      case (Cons x rest)
      with hd_dropWhile[of "\<lambda>x. fn x = None" L] obtain e where e: "fn x = Some e"
        unfolding dw_def by auto
      with cl Cons have "consumeLoop fn (ranges c) 0 L = (Some e, rs', tw @ [x])" by simp
      then show ?thesis
        unfolding ConsumeEvents_def L_def[symmetric] using le Cons e by simp
    qed
    have rn: "dw = [] \<Longrightarrow> ranges (consumer (ConsumeEvents store fn c)) = removeEmptyRanges rs'"
    proof -
      assume Nil: "dw = []"
      with cl have "consumeLoop fn (ranges c) 0 L = (None, rs', tw)" by simp
      then show ?thesis
        unfolding ConsumeEvents_def L_def[symmetric] using le by simp
    qed
    have rc: "dw \<noteq> [] \<Longrightarrow> consumer (ConsumeEvents store fn c) = c\<lparr>ranges := rs'\<rparr>"
    proof -
      assume "dw \<noteq> []"
      then obtain x rest where Cons: "dw = x # rest" by (cases dw) auto
      with hd_dropWhile[of "\<lambda>x. fn x = None" L] obtain e where e: "fn x = Some e"
        unfolding dw_def by auto
      with cl Cons have "consumeLoop fn (ranges c) 0 L = (Some e, rs', tw @ [x])" by simp
      then show ?thesis
        unfolding ConsumeEvents_def L_def[symmetric] using le by simp
    qed
    show "wellFormed (ranges (consumer (ConsumeEvents store fn c)))"
      using rn rc wf' removeEmptyRanges_wellFormed(1)[OF wf'] by (cases "dw = []") simp_all
    show "pending (ranges (consumer (ConsumeEvents store fn c))) \<subseteq> pending (ranges c) - set tw"
      using rn rc pe removeEmptyRanges_wellFormed(2)[OF wf'] by (cases "dw = []") simp_all
    show "dw \<noteq> [] \<Longrightarrow> pending (ranges (consumer (ConsumeEvents store fn c))) = pending (ranges c) - set tw"
      using rc pe by simp
    show "dw = [] \<Longrightarrow> \<forall>rng \<in> set (ranges (consumer (ConsumeEvents store fn c))). Begin rng \<noteq> End rng"
      using rn removeEmptyRanges_wellFormed(3)[OF wf'] by simp
    show "dw \<noteq> [] \<Longrightarrow> tw = [] \<Longrightarrow> consumer (ConsumeEvents store fn c) = c"
      using rc first_tw by simp
    show "gapsLeft store fn c \<le> eventGapSkipWindow \<Longrightarrow>
           pending (ranges (consumer (ConsumeEvents store fn c))) = pending (ranges c) - set tw"
    proof -
      assume g: "gapsLeft store fn c \<le> eventGapSkipWindow"
      have "gapsLeft store fn c = length (filter (\<lambda>rng. Begin rng \<noteq> End rng) rs')"
        unfolding gapsLeft_def L_def[symmetric] cl by simp
      with g have "pending (removeEmptyRanges rs') = pending rs'"
        using removeEmptyRanges_pending[OF wf'] by simp
      then show ?thesis
        using rn rc pe by (cases "dw = []") simp_all
    qed
  qed
qed

lemma ConsumeEvents_loadError:
  "loadError store = Some e \<Longrightarrow>
     ConsumeEvents store fn c = \<lparr>failure = Some e, consumer = c, delivered = []\<rparr>"
  by (simp add: ConsumeEvents_def)

lemma reaches_event:
  "sorted_wrt (<) L \<Longrightarrow> e \<in> set L \<Longrightarrow> \<forall>x \<in> set L. x < e \<longrightarrow> P x \<Longrightarrow>
     e \<in> set (takeWhile P L @ take 1 (dropWhile P L))"
proof (induction L)
  case Nil
  then show ?case by simp
next
  case (Cons x L)
  show ?case
  proof (cases "x = e")
    case True
    then show ?thesis by simp
  next
    case False
    with Cons.prems have "e \<in> set L" "x < e" by auto
    with Cons.prems have "P x" by simp
    moreover from Cons.prems \<open>e \<in> set L\<close> have "e \<in> set (takeWhile P L @ take 1 (dropWhile P L))"
      by (intro Cons.IH) auto
    ultimately show ?thesis by simp
  qed
qed

lemma accepted_of_call:
  "filter P (takeWhile P L @ take 1 (dropWhile P L)) = takeWhile P L"
proof -
  have "filter P (takeWhile P L) = takeWhile P L"
    by (auto simp: filter_id_conv dest: set_takeWhileD)
  moreover have "filter P (take 1 (dropWhile P L)) = []"
  proof (cases "dropWhile P L")
    case Nil
    show ?thesis unfolding Nil by simp
  next
    case (Cons x rest)
    with hd_dropWhile[of P L] have "\<not> P x" by simp
    then show ?thesis unfolding Cons by simp
  qed
  ultimately show ?thesis by simp
qed

lemma NewEventConsumer_wellFormed: "1 \<le> beginID \<Longrightarrow> wellFormed (ranges (NewEventConsumer beginID))"
  by (simp add: NewEventConsumer_def wellFormed_def ordered_def)

lemma consumeAll_inv:
  assumes "wellFormed (ranges c)" and "\<forall>call \<in> set calls. validIds (fst call)"
  shows "wellFormed (ranges (final (consumeAll c calls)))
       \<and> distinct (accepted (consumeAll c calls))
       \<and> set (accepted (consumeAll c calls)) \<subseteq> pending (ranges c)
       \<and> pending (ranges (final (consumeAll c calls)))
            \<subseteq> pending (ranges c) - set (accepted (consumeAll c calls))"
  using assms
proof (induction calls arbitrary: c)
  case Nil
  then show ?case by simp
next
  case (Cons call calls)
  obtain store fn where call: "call = (store, fn)" by (cases call)
  let ?r = "ConsumeEvents store fn c"
  let ?h = "consumeAll (consumer ?r) calls"
  let ?a = "filter (\<lambda>eid. fn eid = None) (delivered ?r)"
  have v: "validIds store" using Cons.prems(2) call by simp
  then have d: "distinct (events store)" by (simp add: validIds_def)
  have step: "wellFormed (ranges (consumer ?r)) \<and> distinct ?a \<and> set ?a \<subseteq> pending (ranges c)
      \<and> pending (ranges (consumer ?r)) \<subseteq> pending (ranges c) - set ?a"
  proof (cases "loadError store")
    case (Some e)
    then show ?thesis using Cons.prems(1) by (simp add: ConsumeEvents_loadError)
  next
    case None
    let ?L = "LoadEvents (events store) (ranges c)"
    let ?tw = "takeWhile (\<lambda>x. fn x = None) ?L"
    note sp = ConsumeEvents_spec[OF Cons.prems(1) v None, of fn]
    have a: "?a = ?tw" unfolding sp(1) by (rule accepted_of_call)
    from Cons.prems(1) have "ordered (ranges c)" by (simp add: wellFormed_def)
    then have "sorted_wrt (<) ?L" using d by (rule LoadEvents_sorted)
    then have "distinct ?L" by (simp add: strict_sorted_iff)
    then have dt: "distinct ?tw" by (rule distinct_takeWhile)
    have "set ?tw \<subseteq> set ?L" by (auto dest: set_takeWhileD)
    then have st: "set ?tw \<subseteq> pending (ranges c)" by (auto simp: LoadEvents_set)
    from sp(3,4) dt st show ?thesis unfolding a by simp
  qed
  have d': "\<forall>call \<in> set calls. validIds (fst call)" using Cons.prems(2) by simp
  from step have wf: "wellFormed (ranges (consumer ?r))" by simp
  note ih = Cons.IH[OF wf d']
  have eq: "consumeAll c (call # calls) =
      \<lparr>final = final ?h, handed = delivered ?r @ handed ?h, accepted = ?a @ accepted ?h\<rparr>"
    unfolding call by (simp add: Let_def)
  from step ih show ?case unfolding eq by auto
qed




lemma rejected_stays_pending:
  fixes fn :: "int \<Rightarrow> error option"
  assumes "wellFormed (ranges c)" and "validIds store"
    and "eid \<in> set (delivered (ConsumeEvents store fn c))" and "fn eid \<noteq> None"
  shows "eid \<in> pending (ranges (consumer (ConsumeEvents store fn c)))"
proof -
  let ?P = "\<lambda>x. fn x = None"
  let ?L = "LoadEvents (events store) (ranges c)"
  let ?tw = "takeWhile ?P ?L"
  let ?dw = "dropWhile ?P ?L"
  from assms(3) have le: "loadError store = None"
    by (cases "loadError store") (simp_all add: ConsumeEvents_loadError)
  note sp = ConsumeEvents_spec[OF assms(1,2) le, of fn]
  from assms(4) have notin: "eid \<notin> set ?tw" by (auto dest: set_takeWhileD)
  with assms(3) have e: "eid \<in> set (take 1 ?dw)" unfolding sp(1) by simp
  have dne: "?dw \<noteq> []"
  proof
    assume n: "?dw = []"
    from e show False unfolding n by simp
  qed
  from e have "eid \<in> set ?dw" by (auto dest: in_set_takeD)
  then have "eid \<in> set ?L" by (auto dest: set_dropWhileD)
  then have "eid \<in> pending (ranges c)" by (simp add: LoadEvents_set)
  with notin sp(5)[OF dne] show ?thesis by simp
qed

lemma pending_event_delivered:
  fixes fn :: "int \<Rightarrow> error option"
  assumes "wellFormed (ranges c)" and "validIds store" and "loadError store = None"
    and "eid \<in> set (events store)" and "eid \<in> pending (ranges c)"
    and "\<forall>x. x < eid \<longrightarrow> fn x = None"
  shows "eid \<in> set (delivered (ConsumeEvents store fn c))"
proof -
  let ?L = "LoadEvents (events store) (ranges c)"
  note sp = ConsumeEvents_spec[OF assms(1,2,3), of fn]
  from assms(1,2) have "ordered (ranges c)" and "distinct (events store)"
    by (simp_all add: wellFormed_def validIds_def)
  then have s: "sorted_wrt (<) ?L" by (rule LoadEvents_sorted)
  have m: "eid \<in> set ?L" using assms(4,5) by (simp add: LoadEvents_set)
  have "eid \<in> set (takeWhile (\<lambda>x. fn x = None) ?L @ take 1 (dropWhile (\<lambda>x. fn x = None) ?L))"
    using s m assms(6) by (intro reaches_event) auto
  then show ?thesis unfolding sp(1) .
qed



section \<open>The event consumer: delivery\<close>




text \<open>
  C5.  Take a consumer created with a positive \<open>beginID\<close> after any sequence of
  calls, all stores with unique ids below the largest \<open>int64\<close>.  When the callback
  returns an error for some loaded event, \<open>ConsumeEvents\<close> returns the error of the
  first such event \<open>eid\<close> and hands nothing after it to the callback.  The failed
  event advances no range: the ranges wait for the ids from before the call without the
  events accepted before \<open>eid\<close>, \<open>eid\<close> itself is still waited for, and when
  \<open>eid\<close> is the first loaded event the consumer is unchanged.  Any later call on a
  store that holds \<open>eid\<close>, with a callback accepting the events below \<open>eid\<close>,
  hands \<open>eid\<close> to the callback again.
\<close>

theorem ConsumeEvents_callback_error:
  fixes fn :: "int \<Rightarrow> error option"
  assumes "1 \<le> beginID" and "\<forall>call \<in> set calls. validIds (fst call)"
    and "c = final (consumeAll (NewEventConsumer beginID) calls)"
    and "validIds store" and "loadError store = None"
    and "\<exists>x \<in> set (LoadEvents (events store) (ranges c)). fn x \<noteq> None"
  shows "\<exists>pre eid post.
      LoadEvents (events store) (ranges c) = pre @ eid # post
      \<and> (\<forall>x \<in> set pre. fn x = None) \<and> fn eid \<noteq> None
      \<and> failure (ConsumeEvents store fn c) = fn eid
      \<and> delivered (ConsumeEvents store fn c) = pre @ [eid]
      \<and> pending (ranges (consumer (ConsumeEvents store fn c))) = pending (ranges c) - set pre
      \<and> eid \<in> pending (ranges (consumer (ConsumeEvents store fn c)))
      \<and> (pre = [] \<longrightarrow> consumer (ConsumeEvents store fn c) = c)
      \<and> (\<forall>store' fn'. validIds store' \<and> loadError store' = None
             \<and> eid \<in> set (events store') \<and> (\<forall>x. x < eid \<longrightarrow> fn' x = None)
           \<longrightarrow> eid \<in> set (delivered (ConsumeEvents store' fn' (consumer (ConsumeEvents store fn c)))))"
proof -
  let ?P = "\<lambda>x. fn x = None"
  let ?L = "LoadEvents (events store) (ranges c)"
  let ?tw = "takeWhile ?P ?L"
  let ?dw = "dropWhile ?P ?L"
  let ?c' = "consumer (ConsumeEvents store fn c)"
  from consumeAll_inv[OF NewEventConsumer_wellFormed[OF assms(1)] assms(2)] assms(3)
  have wf: "wellFormed (ranges c)" by simp
  note sp = ConsumeEvents_spec[OF wf assms(4,5), of fn]
  from assms(6) have dne: "?dw \<noteq> []" by (auto simp: dropWhile_eq_Nil_conv)
  then obtain eid post where dw: "?dw = eid # post" by (cases ?dw) auto
  with hd_dropWhile[of ?P ?L] have fe: "fn eid \<noteq> None" by simp
  have L: "?L = ?tw @ eid # post"
    using takeWhile_dropWhile_id[of ?P ?L] dw by simp
  have pre: "\<forall>x \<in> set ?tw. fn x = None" by (auto dest: set_takeWhileD)
  have f: "failure (ConsumeEvents store fn c) = fn eid"
    unfolding sp(2) dw by simp
  have d: "delivered (ConsumeEvents store fn c) = ?tw @ [eid]"
    unfolding sp(1) dw by simp
  then have "eid \<in> set (delivered (ConsumeEvents store fn c))" by simp
  from rejected_stays_pending[OF wf assms(4) this fe]
  have still: "eid \<in> pending (ranges ?c')" .
  have again: "\<forall>store' fn'. validIds store' \<and> loadError store' = None
             \<and> eid \<in> set (events store') \<and> (\<forall>x. x < eid \<longrightarrow> fn' x = None)
           \<longrightarrow> eid \<in> set (delivered (ConsumeEvents store' fn' ?c'))"
  proof (intro allI impI)
    fix store' :: EventStore and fn' :: "int \<Rightarrow> error option"
    assume a: "validIds store' \<and> loadError store' = None
             \<and> eid \<in> set (events store') \<and> (\<forall>x. x < eid \<longrightarrow> fn' x = None)"
    then show "eid \<in> set (delivered (ConsumeEvents store' fn' ?c'))"
      by (intro pending_event_delivered[OF sp(3) _ _ _ still]) simp_all
  qed
  have u: "?tw = [] \<longrightarrow> ?c' = c"
    using sp(7)[OF dne] by simp
  show ?thesis
    apply (rule exI[of _ ?tw], rule exI[of _ eid], rule exI[of _ post])
    using L pre fe f d sp(5)[OF dne] still u again
    apply (intro conjI)
            apply assumption+
    done
qed

text \<open>
  After the events 1, 2, 3 were accepted, a call on the store 1, 2, 3, 5, 6, 8 whose
  callback fails on 6 hands over 5 and 6 and returns the error; the next call hands 6
  over again.
\<close>

theorem ConsumeEvents_callback_error_witness:
  "(1::int) \<le> 1
   \<and> validIds (mockStore [1, 2, 3, 5, 6, 8])
   \<and> loadError (mockStore [1, 2, 3, 5, 6, 8]) = None
   \<and> LoadEvents (events (mockStore [1, 2, 3, 5, 6, 8]))
        (ranges (final (consumeAll (NewEventConsumer 1) firstCalls))) = [5, 6, 8]
   \<and> failOn 6 6 \<noteq> None
   \<and> failure (ConsumeEvents (mockStore [1, 2, 3, 5, 6, 8]) (failOn 6)
                (final (consumeAll (NewEventConsumer 1) firstCalls)))
        = Some (Err ''consuming error'')
   \<and> delivered (ConsumeEvents (mockStore [1, 2, 3, 5, 6, 8]) (failOn 6)
                  (final (consumeAll (NewEventConsumer 1) firstCalls))) = [5, 6]
   \<and> (\<exists>pre eid post.
        LoadEvents (events (mockStore [1, 2, 3, 5, 6, 8]))
          (ranges (final (consumeAll (NewEventConsumer 1) firstCalls))) = pre @ eid # post
        \<and> failOn 6 eid \<noteq> None
        \<and> eid \<in> pending (ranges (consumer (ConsumeEvents (mockStore [1, 2, 3, 5, 6, 8]) (failOn 6)
                  (final (consumeAll (NewEventConsumer 1) firstCalls)))))
        \<and> eid \<in> set (delivered (ConsumeEvents (mockStore [1, 2, 3, 5, 6, 8]) succeed
              (consumer (ConsumeEvents (mockStore [1, 2, 3, 5, 6, 8]) (failOn 6)
                  (final (consumeAll (NewEventConsumer 1) firstCalls)))))))"
proof -
  let ?c = "final (consumeAll (NewEventConsumer 1) firstCalls)"
  let ?store = "mockStore [1, 2, 3, 5, 6, 8]"
  have h1: "(1::int) \<le> 1" by simp
  have h2: "\<forall>call \<in> set firstCalls. validIds (fst call)"
    by (simp add: firstCalls_def mockStore_def validIds_def)
  have h4: "validIds ?store" by (simp add: mockStore_def validIds_def)
  have h5: "loadError ?store = None" by (simp add: mockStore_def)
  have l: "LoadEvents (events ?store) (ranges ?c) = [5, 6, 8]"
    by code_simp
  have f6: "failOn 6 6 \<noteq> None" by (simp add: failOn_def)
  have h6: "\<exists>x \<in> set (LoadEvents (events ?store) (ranges ?c)). failOn 6 x \<noteq> None"
    unfolding l using f6 by simp
  have f: "failure (ConsumeEvents ?store (failOn 6) ?c) = Some (Err ''consuming error'')"
    by code_simp
  have d: "delivered (ConsumeEvents ?store (failOn 6) ?c) = [5, 6]"
    by code_simp
  from ConsumeEvents_callback_error [OF h1 h2 refl h4 h5 h6] obtain pre eid post where
    e: "LoadEvents (events ?store) (ranges ?c) = pre @ eid # post"
      "failOn 6 eid \<noteq> None"
      "eid \<in> pending (ranges (consumer (ConsumeEvents ?store (failOn 6) ?c)))"
      "\<forall>store' fn'. validIds store' \<and> loadError store' = None
             \<and> eid \<in> set (events store') \<and> (\<forall>x. x < eid \<longrightarrow> fn' x = None)
           \<longrightarrow> eid \<in> set (delivered (ConsumeEvents store' fn' (consumer (ConsumeEvents ?store (failOn 6) ?c))))"
    by blast
  from e(2) have "eid = 6" by (simp add: failOn_def split: if_splits)
  then have "eid \<in> set (events ?store)" by (simp add: mockStore_def)
  with e(4) h4 h5 have "eid \<in> set (delivered (ConsumeEvents ?store succeed (consumer (ConsumeEvents ?store (failOn 6) ?c))))"
    by (simp add: succeed_def)
  with e(1,2,3) h1 h4 h5 l f6 f d show ?thesis by blast
qed

end
